theory Spec2Isabelle
  imports Main "HOL-Library.Word" "HOL-Library.Monad_Syntax"
    "HOL-Library.Char_ord" "HOL-Library.List_Lexorder" "HOL-Library.Multiset"
begin

unbundle bit_operations_syntax

section \<open>Data model of package nsp\<close>

text \<open>
  Bytes are 8-bit words, Go's \<open>uint32\<close> and \<open>uint64\<close> are 32- and 64-bit words (their
  arithmetic wraps). Go's \<open>int\<close> is 64 bits wide; in \<open>generateHeader\<close> it only holds
  lengths of strings and of the header buffer and sums of them, which are bounded by the
  memory that holds the names and the buffer, so these values are natural numbers here.
  Strings are byte strings, compared bytewise as Go's \<open><\<close> does.
\<close>

type_synonym byte = "8 word"
type_synonym uint32 = "32 word"
type_synonym uint64 = "64 word"

record partitionEntry =
  path :: string
  name :: string
  fsize :: uint64
  dataOffset :: uint64
  stringOffset :: uint32

record Builder =
  OutputPath :: string
  BufferSize :: int
  ShowProgress :: bool
  ProgressUpdateFrequency :: int
  lastProgressWidth :: int
  partEntries :: "partitionEntry list"

definition PFS0Magic :: string where
  "PFS0Magic = ''PFS0''"

definition bytes_of :: "string \<Rightarrow> byte list" where
  "bytes_of s = map of_char s"

section \<open>Byte buffers\<close>

text \<open>
  \<open>binary.LittleEndian.PutUint32(b, v)\<close> stores \<open>byte(v)\<close>, \<open>byte(v>>8)\<close>, \<open>byte(v>>16)\<close>,
  \<open>byte(v>>24)\<close>; \<open>PutUint64\<close> the eight bytes likewise.
\<close>

definition le32 :: "uint32 \<Rightarrow> byte list" where
  "le32 v = [ucast v, ucast (drop_bit 8 v), ucast (drop_bit 16 v), ucast (drop_bit 24 v)]"

definition le64 :: "uint64 \<Rightarrow> byte list" where
  "le64 v = [ucast v, ucast (drop_bit 8 v), ucast (drop_bit 16 v), ucast (drop_bit 24 v),
             ucast (drop_bit 32 v), ucast (drop_bit 40 v), ucast (drop_bit 48 v),
             ucast (drop_bit 56 v)]"

text \<open>The number a little-endian byte string denotes (used to read fields back).\<close>

fun le_nat :: "byte list \<Rightarrow> nat" where
  "le_nat [] = 0"
| "le_nat (b # bs) = unat b + 256 * le_nat bs"

text \<open>
  \<open>copy(buf[off:], src)\<close>: slicing panics when \<open>off\<close> exceeds the length of the buffer
  (\<open>None\<close>); \<open>copy\<close> itself copies as many bytes as fit.
\<close>

definition copy_at :: "byte list \<Rightarrow> nat \<Rightarrow> byte list \<Rightarrow> byte list option" where
  "copy_at buf off src =
     (if off \<le> length buf
      then Some (take off buf @ take (length buf - off) src @ drop (off + length src) buf)
      else None)"

text \<open>
  \<open>PutUint32(buf[off:], v)\<close> panics unless four bytes are left from \<open>off\<close> on,
  \<open>PutUint64\<close> unless eight are.
\<close>

definition PutUint32 :: "byte list \<Rightarrow> nat \<Rightarrow> uint32 \<Rightarrow> byte list option" where
  "PutUint32 buf off v =
     (if off + 4 \<le> length buf then Some (take off buf @ le32 v @ drop (off + 4) buf) else None)"

definition PutUint64 :: "byte list \<Rightarrow> nat \<Rightarrow> uint64 \<Rightarrow> byte list option" where
  "PutUint64 buf off v =
     (if off + 8 \<le> length buf then Some (take off buf @ le64 v @ drop (off + 8) buf) else None)"

section \<open>generateHeader\<close>

definition stringTableSize :: "partitionEntry list \<Rightarrow> nat" where
  "stringTableSize es = sum_list (map (\<lambda>file. length (name file) + 1) es)"

definition headerPadding :: "partitionEntry list \<Rightarrow> nat" where
  "headerPadding es =
     (let headerSize = 16 + length es * 24 + stringTableSize es;
          remainder = headerSize mod 16
      in if remainder > 0 then 16 - remainder else 0)"

definition headerSize :: "partitionEntry list \<Rightarrow> nat" where
  "headerSize es = 16 + length es * 24 + stringTableSize es + headerPadding es"

text \<open>
  The loop over the partition entry table: one 24-byte record per entry, written at
  \<open>headerPosition\<close>, while the entry's \<open>dataOffset\<close> and \<open>stringOffset\<close> are assigned.
\<close>

fun writeEntries ::
  "partitionEntry list \<Rightarrow> byte list \<Rightarrow> nat \<Rightarrow> uint32 \<Rightarrow> uint64 \<Rightarrow> uint64 \<Rightarrow>
   (byte list \<times> partitionEntry list) option" where
  "writeEntries [] header headerPosition strOff fileDataOffset fileDataBaseOffset =
     Some (header, [])"
| "writeEntries (file # rest) header headerPosition strOff fileDataOffset fileDataBaseOffset =
     do {
       h1 \<leftarrow> PutUint64 header headerPosition fileDataOffset;
       h2 \<leftarrow> PutUint64 h1 (headerPosition + 8) (fsize file);
       h3 \<leftarrow> PutUint32 h2 (headerPosition + 16) strOff;
       h4 \<leftarrow> PutUint32 h3 (headerPosition + 20) 0;
       (h5, rest') \<leftarrow> writeEntries rest h4 (headerPosition + 24)
                        (strOff + of_nat (length (name file) + 1))
                        (fileDataOffset + fsize file) fileDataBaseOffset;
       Some (h5, file\<lparr>dataOffset := fileDataBaseOffset + fileDataOffset,
                       stringOffset := strOff\<rparr> # rest')
     }"

text \<open>The loop over the string table: each name is copied to its offset.\<close>

fun writeNames :: "partitionEntry list \<Rightarrow> nat \<Rightarrow> byte list \<Rightarrow> byte list option" where
  "writeNames [] stringTableOffset header = Some header"
| "writeNames (entry # rest) stringTableOffset header =
     do {
       h \<leftarrow> copy_at header (stringTableOffset + unat (stringOffset entry)) (bytes_of (name entry));
       writeNames rest stringTableOffset h
     }"

text \<open>
  \<open>generateHeader\<close> returns the header and leaves the offsets in the builder's entries;
  \<open>None\<close> is a run-time panic of one of the buffer accesses.
\<close>

definition generateHeader :: "Builder \<Rightarrow> (byte list \<times> Builder) option" where
  "generateHeader b =
     (let es = partEntries b;
          entryCount = length es;
          partitionTableSize = entryCount * 24;
          header = replicate (headerSize es) (0 :: byte)
      in do {
        h0 \<leftarrow> copy_at header 0 (bytes_of PFS0Magic);
        h1 \<leftarrow> PutUint32 h0 4 (of_nat entryCount);
        h2 \<leftarrow> PutUint32 h1 8 (of_nat (stringTableSize es + headerPadding es));
        h3 \<leftarrow> PutUint32 h2 12 0;
        (h4, es') \<leftarrow> writeEntries es h3 16 0 0 (of_nat (headerSize es));
        h5 \<leftarrow> writeNames es' (16 + partitionTableSize) h4;
        Some (h5, b\<lparr>partEntries := es'\<rparr>)
      })"

section \<open>The file system\<close>

text \<open>
  The operating system is a map from paths to the bytes of regular files. The model keeps
  the failures that this map decides: a missing file, an empty path, a negative seek
  offset and a write that would pass the largest file offset (\<open>2^63 - 1\<close>, the largest
  \<open>int64\<close>). Permissions, directories, device errors and disk exhaustion are outside
  of it. Console output (\<open>fmt.Printf\<close>, the redrawn progress line) changes neither a
  file nor a result and is left out of \<open>Build\<close>.
\<close>

type_synonym filesystem = "string \<rightharpoonup> byte list"

datatype oserror = ENOENT | EINVAL | EFBIG | EOVERFLOW | EBADF

datatype error =
    AddFileFailed string oserror
  | NoInputFiles
  | CreateFailed string oserror
  | HeaderWriteFailed oserror
  | HeaderShortWrite string nat nat
  | OpenFailed string oserror
  | SeekFailed string oserror
  | ReadFailed string oserror
  | WriteFailed string oserror
  | SizeMismatch string uint64 uint64
  | RuntimePanic

definition MaxFileSize :: nat where
  "MaxFileSize = 2 ^ 63 - 1"

record FileInfo =
  Name :: string
  Size :: int

text \<open>
  \<open>FileInfo.Name\<close> is the base name of the path that was given to \<open>os.Stat\<close>: trailing
  slashes are removed (but for a path of one character), then the leading directories.
\<close>

function stripSlashes :: "string \<Rightarrow> string" where
  "stripSlashes s =
     (if 1 < length s \<and> last s = CHR ''/'' then stripSlashes (butlast s) else s)"
  by pat_completeness auto
termination
  by (relation "measure length") auto

definition basename :: "string \<Rightarrow> string" where
  "basename p =
     (let s = stripSlashes p
      in if length s \<le> 1 then s
         else rev (takeWhile (\<lambda>c. c \<noteq> CHR ''/'') (rev (butlast s))) @ [last s])"

definition os_Stat :: "filesystem \<Rightarrow> string \<Rightarrow> oserror + FileInfo" where
  "os_Stat fs p =
     (case fs p of
        None \<Rightarrow> Inl ENOENT
      | Some c \<Rightarrow>
          if length c \<le> MaxFileSize then Inr \<lparr>Name = basename p, Size = int (length c)\<rparr>
          else Inl EOVERFLOW)"

text \<open>\<open>os.Create\<close> makes the file or truncates it; the empty path names no file.\<close>

definition os_Create :: "filesystem \<Rightarrow> string \<Rightarrow> oserror + filesystem" where
  "os_Create fs p = (if p = [] then Inl ENOENT else Inr (fs(p \<mapsto> [])))"

definition os_Open :: "filesystem \<Rightarrow> string \<Rightarrow> oserror + unit" where
  "os_Open fs p = (case fs p of None \<Rightarrow> Inl ENOENT | Some c \<Rightarrow> Inr ())"

text \<open>\<open>Seek(int64(off), io.SeekStart)\<close> fails on a negative offset.\<close>

definition os_Seek :: "uint64 \<Rightarrow> oserror + nat" where
  "os_Seek off = (if sint off < 0 then Inl EINVAL else Inr (unat off))"

text \<open>A read at position \<open>pos\<close> into a buffer of \<open>n\<close> bytes; no bytes at the end of the file.\<close>

definition os_Read :: "filesystem \<Rightarrow> string \<Rightarrow> nat \<Rightarrow> nat \<Rightarrow> oserror + byte list" where
  "os_Read fs p pos n =
     (case fs p of None \<Rightarrow> Inl EBADF | Some c \<Rightarrow> Inr (take n (drop pos c)))"

text \<open>
  A write at position \<open>pos\<close> overwrites or extends the file; a gap left by a seek past
  the end reads as zeros. A write that would pass \<open>MaxFileSize\<close> stores the bytes that
  fit and fails. The result is the count of bytes written, the error and the file system.
\<close>

definition write_at :: "byte list \<Rightarrow> nat \<Rightarrow> byte list \<Rightarrow> byte list" where
  "write_at c pos bs =
     (if bs = [] then c
      else take pos c @ replicate (pos - length c) 0 @ bs @ drop (pos + length bs) c)"

definition os_Write ::
  "filesystem \<Rightarrow> string \<Rightarrow> nat \<Rightarrow> byte list \<Rightarrow> nat \<times> oserror option \<times> filesystem" where
  "os_Write fs p pos bs =
     (case fs p of
        None \<Rightarrow> (0, Some EBADF, fs)
      | Some c \<Rightarrow>
          if pos + length bs \<le> MaxFileSize
          then (length bs, None, fs(p \<mapsto> write_at c pos bs))
          else (MaxFileSize - pos, Some EFBIG,
                fs(p \<mapsto> write_at c pos (take (MaxFileSize - pos) bs))))"

section \<open>AddFile and AddFiles\<close>

definition AddFile :: "filesystem \<Rightarrow> Builder \<Rightarrow> string \<Rightarrow> error option \<times> Builder" where
  "AddFile fs b p =
     (case os_Stat fs p of
        Inl err \<Rightarrow> (Some (AddFileFailed p err), b)
      | Inr info \<Rightarrow>
          (None, b\<lparr>partEntries := partEntries b @
                     [\<lparr>path = p, name = Name info, fsize = of_int (Size info),
                       dataOffset = 0, stringOffset = 0\<rparr>]\<rparr>))"

fun AddFiles :: "filesystem \<Rightarrow> Builder \<Rightarrow> string list \<Rightarrow> error option \<times> Builder" where
  "AddFiles fs b [] = (None, b)"
| "AddFiles fs b (p # paths) =
     (case AddFile fs b p of
        (Some err, b') \<Rightarrow> (Some err, b')
      | (None, b') \<Rightarrow> AddFiles fs b' paths)"

section \<open>copyFileToNSP and Build\<close>

text \<open>
  The chunked copy loop of \<open>copyFileToNSP\<close>. The input is read through the file system
  at every turn, so that an input that is the output file itself is read as it grows.
  The result is the error, the file system, \<open>bytesWritten\<close> and \<open>processedSize\<close>.
\<close>

function copyLoop ::
  "filesystem \<Rightarrow> string \<Rightarrow> nat \<Rightarrow> string \<Rightarrow> nat \<Rightarrow> nat \<Rightarrow> uint64 \<Rightarrow> uint64 \<Rightarrow>
   error option \<times> filesystem \<times> uint64 \<times> uint64" where
  "copyLoop fs inPath rpos outPath wpos bufLen bytesWritten processedSize =
     (case os_Read fs inPath rpos bufLen of
        Inl err \<Rightarrow> (Some (ReadFailed inPath err), fs, bytesWritten, processedSize)
      | Inr chunk \<Rightarrow>
          if length chunk = 0 then (None, fs, bytesWritten, processedSize)
          else
            (case os_Write fs outPath wpos chunk of
               (n, Some err, fs') \<Rightarrow>
                 (Some (WriteFailed outPath err), fs', bytesWritten, processedSize)
             | (n, None, fs') \<Rightarrow>
                 copyLoop fs' inPath (rpos + length chunk) outPath (wpos + length chunk) bufLen
                   (bytesWritten + of_nat (length chunk))
                   (processedSize + of_nat (length chunk))))"
  by pat_completeness auto
termination
  by (relation "measure (\<lambda>(fs, inPath, rpos, outPath, wpos, rest). MaxFileSize - wpos)")
     (auto simp: os_Write_def neq_Nil_conv split: option.splits if_splits)

definition copyFileToNSP ::
  "Builder \<Rightarrow> filesystem \<Rightarrow> partitionEntry \<Rightarrow> nat \<Rightarrow> uint64 \<Rightarrow> uint64 \<Rightarrow>
   error option \<times> filesystem \<times> uint64" where
  "copyFileToNSP b fs fileInfo bufLen processedSize totalSize =
     (case os_Open fs (path fileInfo) of
        Inl err \<Rightarrow> (Some (OpenFailed (path fileInfo) err), fs, processedSize)
      | Inr _ \<Rightarrow>
          (case os_Seek (dataOffset fileInfo) of
             Inl err \<Rightarrow> (Some (SeekFailed (path fileInfo) err), fs, processedSize)
           | Inr wpos \<Rightarrow>
               (case copyLoop fs (path fileInfo) 0 (OutputPath b) wpos bufLen 0 processedSize of
                  (Some err, fs', bytesWritten, processed') \<Rightarrow> (Some err, fs', processed')
                | (None, fs', bytesWritten, processed') \<Rightarrow>
                    if bytesWritten \<noteq> fsize fileInfo
                    then (Some (SizeMismatch (path fileInfo) (fsize fileInfo) bytesWritten),
                          fs', processed')
                    else (None, fs', processed'))))"

text \<open>The loop of \<open>Build\<close> over the entries: the first error ends it.\<close>

fun copyEntries ::
  "Builder \<Rightarrow> filesystem \<Rightarrow> partitionEntry list \<Rightarrow> nat \<Rightarrow> uint64 \<Rightarrow> uint64 \<Rightarrow>
   error option \<times> filesystem \<times> uint64" where
  "copyEntries b fs [] bufLen processedSize totalSize = (None, fs, processedSize)"
| "copyEntries b fs (file # rest) bufLen processedSize totalSize =
     (case copyFileToNSP b fs file bufLen processedSize totalSize of
        (Some err, fs', processed') \<Rightarrow> (Some err, fs', processed')
      | (None, fs', processed') \<Rightarrow> copyEntries b fs' rest bufLen processed' totalSize)"

text \<open>
  \<open>sort.Slice\<close> orders the entries by name and is not stable: which of two entries of
  the same name comes first is not specified. \<open>Build\<close> therefore takes the sorting
  function as a parameter, and \<open>sorts_by_name\<close> says what \<open>sort.Slice\<close> promises.
\<close>

definition sorts_by_name :: "(partitionEntry list \<Rightarrow> partitionEntry list) \<Rightarrow> bool" where
  "sorts_by_name sort_Slice =
     (\<forall>es. mset (sort_Slice es) = mset es \<and> sorted (map name (sort_Slice es)))"

text \<open>
  \<open>Build\<close> returns the error, the builder (whose entries are sorted and carry their
  offsets once the header is generated) and the file system. \<open>make([]byte, BufferSize)\<close>
  panics on a negative size.
\<close>

definition Build ::
  "(partitionEntry list \<Rightarrow> partitionEntry list) \<Rightarrow> Builder \<Rightarrow> filesystem \<Rightarrow>
   error option \<times> Builder \<times> filesystem" where
  "Build sort_Slice b fs =
     (if length (partEntries b) = 0 then (Some NoInputFiles, b, fs)
      else
        let b1 = b\<lparr>partEntries := sort_Slice (partEntries b)\<rparr> in
        (case generateHeader b1 of
           None \<Rightarrow> (Some RuntimePanic, b1, fs)
         | Some (header, b2) \<Rightarrow>
             (case os_Create fs (OutputPath b2) of
                Inl err \<Rightarrow> (Some (CreateFailed (OutputPath b2) err), b2, fs)
              | Inr fs1 \<Rightarrow>
                  (case os_Write fs1 (OutputPath b2) 0 header of
                     (n, Some err, fs2) \<Rightarrow> (Some (HeaderWriteFailed err), b2, fs2)
                   | (n, None, fs2) \<Rightarrow>
                       if n \<noteq> length header
                       then (Some (HeaderShortWrite (OutputPath b2) (length header) n), b2, fs2)
                       else
                         let totalSize = fold (\<lambda>file total. total + fsize file) (partEntries b2) 0 in
                         if BufferSize b2 < 0 then (Some RuntimePanic, b2, fs2)
                         else
                           (case copyEntries b2 fs2 (partEntries b2) (nat (BufferSize b2)) 0 totalSize of
                              (err, fs3, processed) \<Rightarrow> (err, b2, fs3))))))"

section \<open>Closed forms of the header\<close>

text \<open>
  What the two loops of \<open>generateHeader\<close> leave behind, written without the buffer:
  the records, the entries with their offsets, the name table and the whole header.
\<close>

fun entryRecords :: "partitionEntry list \<Rightarrow> uint32 \<Rightarrow> uint64 \<Rightarrow> byte list" where
  "entryRecords [] so fo = []"
| "entryRecords (e # es) so fo =
     le64 fo @ le64 (fsize e) @ le32 so @ le32 0 @
     entryRecords es (so + of_nat (length (name e) + 1)) (fo + fsize e)"

fun assignOffsets :: "partitionEntry list \<Rightarrow> uint32 \<Rightarrow> uint64 \<Rightarrow> uint64 \<Rightarrow> partitionEntry list" where
  "assignOffsets [] so fo base = []"
| "assignOffsets (e # es) so fo base =
     e\<lparr>dataOffset := base + fo, stringOffset := so\<rparr> #
     assignOffsets es (so + of_nat (length (name e) + 1)) (fo + fsize e) base"

fun offsets_fit :: "nat \<Rightarrow> partitionEntry list \<Rightarrow> bool" where
  "offsets_fit d [] = True"
| "offsets_fit d (e # es) = (d < 2 ^ 32 \<and> offsets_fit (d + length (name e) + 1) es)"

definition nameTable :: "partitionEntry list \<Rightarrow> byte list" where
  "nameTable es = concat (map (\<lambda>e. bytes_of (name e) @ [0]) es)"

definition headerLayout :: "partitionEntry list \<Rightarrow> byte list" where
  "headerLayout es =
     bytes_of PFS0Magic @ le32 (of_nat (length es)) @
     le32 (of_nat (stringTableSize es + headerPadding es)) @ le32 0 @
     entryRecords es 0 0 @ nameTable es @ replicate (headerPadding es) 0"

definition headerPrologue :: "partitionEntry list \<Rightarrow> byte list" where
  "headerPrologue es =
     bytes_of PFS0Magic @ le32 (of_nat (length es)) @
     le32 (of_nat (stringTableSize es + headerPadding es)) @ le32 0"

definition field :: "nat \<Rightarrow> nat \<Rightarrow> byte list \<Rightarrow> byte list" where
  "field off n h = take n (drop off h)"

definition longName :: string where
  "longName = replicate 255 (CHR ''a'')"

definition manyNames :: Builder where
  "manyNames = \<lparr>OutputPath = ''out.nsp'', BufferSize = 4096, ShowProgress = False,
      ProgressUpdateFrequency = 100, lastProgressWidth = 0,
      partEntries = replicate (2 ^ 24)
        \<lparr>path = longName, name = longName, fsize = 0, dataOffset = 0, stringOffset = 0\<rparr>\<rparr>"

definition twoFiles :: Builder where
  "twoFiles = \<lparr>OutputPath = ''out.nsp'', BufferSize = 4096, ShowProgress = False,
      ProgressUpdateFrequency = 100, lastProgressWidth = 0,
      partEntries =
        [\<lparr>path = ''a.bin'', name = ''a.bin'', fsize = 2, dataOffset = 0, stringOffset = 0\<rparr>,
         \<lparr>path = ''b.bin'', name = ''b.bin'', fsize = 3, dataOffset = 0, stringOffset = 0\<rparr>]\<rparr>"

definition threeHuge :: Builder where
  "threeHuge = \<lparr>OutputPath = ''out.nsp'', BufferSize = 4096, ShowProgress = False,
      ProgressUpdateFrequency = 100, lastProgressWidth = 0,
      partEntries =
        [\<lparr>path = ''a'', name = ''a'', fsize = 9223372036854775807, dataOffset = 0, stringOffset = 0\<rparr>,
         \<lparr>path = ''b'', name = ''b'', fsize = 9223372036854775807, dataOffset = 0, stringOffset = 0\<rparr>,
         \<lparr>path = ''c'', name = ''c'', fsize = 9223372036854775807, dataOffset = 0, stringOffset = 0\<rparr>]\<rparr>"

definition emptyBuilder :: Builder where
  "emptyBuilder = \<lparr>OutputPath = ''out.nsp'', BufferSize = 4096, ShowProgress = False,
      ProgressUpdateFrequency = 100, lastProgressWidth = 0, partEntries = []\<rparr>"

definition fileSystem2 :: filesystem where
  "fileSystem2 = [''b.bin'' \<mapsto> [1, 2, 3], ''a.bin'' \<mapsto> [0xAA, 0xBB]]"

definition fileSystemDup :: filesystem where
  "fileSystemDup = [''x/a.bin'' \<mapsto> [1], ''y/a.bin'' \<mapsto> [2, 3]]"

definition sameNames :: Builder where
  "sameNames = snd (AddFiles fileSystemDup emptyBuilder [''x/a.bin'', ''y/a.bin''])"

definition registered :: Builder where
  "registered = snd (AddFiles fileSystem2 emptyBuilder [''b.bin'', ''a.bin''])"

definition sourceBytes :: "filesystem \<Rightarrow> partitionEntry \<Rightarrow> byte list" where
  "sourceBytes fs e = (case fs (path e) of None \<Rightarrow> [] | Some c \<Rightarrow> c)"

definition streamed :: "nat \<Rightarrow> byte list \<Rightarrow> byte list" where
  "streamed bufLen c = (if bufLen = 0 then [] else c)"

definition registeredIn :: "filesystem \<Rightarrow> partitionEntry \<Rightarrow> bool" where
  "registeredIn fs e =
     (case fs (path e) of
        None \<Rightarrow> False
      | Some c \<Rightarrow> length c \<le> MaxFileSize \<and> fsize e = of_nat (length c))"

fun consecutive :: "uint64 \<Rightarrow> partitionEntry list \<Rightarrow> bool" where
  "consecutive off [] = True"
| "consecutive off (e # es) = (dataOffset e = off \<and> consecutive (off + fsize e) es)"

definition matches :: "filesystem \<Rightarrow> Builder \<Rightarrow> nat \<Rightarrow> partitionEntry \<Rightarrow> bool" where
  "matches F b bufLen e =
     (F (path e) \<noteq> None \<and> (0 < bufLen \<longrightarrow> path e \<noteq> OutputPath b) \<and>
      fsize e = of_nat (length (streamed bufLen (sourceBytes F e))))"

section \<open>Properties of the header\<close>

lemma length_le32: "length (le32 v) = 4" by (simp add: le32_def)

lemma length_le64: "length (le64 v) = 8" by (simp add: le64_def)

lemma PutUint32_app:
  "length A = off \<Longrightarrow> 4 \<le> length R \<Longrightarrow> PutUint32 (A @ R) off v = Some (A @ le32 v @ drop 4 R)"
  by (simp add: PutUint32_def)

lemma PutUint64_app:
  "length A = off \<Longrightarrow> 8 \<le> length R \<Longrightarrow> PutUint64 (A @ R) off v = Some (A @ le64 v @ drop 8 R)"
  by (simp add: PutUint64_def)

lemma length_entryRecords: "length (entryRecords es so fo) = 24 * length es"
  by (induction es arbitrary: so fo) (simp_all add: length_le32 length_le64)

lemma writeEntries_closed:
  "length A = pos \<Longrightarrow> 24 * length es \<le> length R \<Longrightarrow>
   writeEntries es (A @ R) pos so fo base =
     Some (A @ entryRecords es so fo @ drop (24 * length es) R, assignOffsets es so fo base)"
proof (induction es arbitrary: A R pos so fo)
  case Nil
  then show ?case by simp
next
  case (Cons e es)
  let ?A1 = "A @ le64 fo"
  let ?A2 = "?A1 @ le64 (fsize e)"
  let ?A3 = "?A2 @ le32 so"
  let ?A4 = "?A3 @ le32 0"
  have 1: "PutUint64 (A @ R) pos fo = Some (?A1 @ drop 8 R)"
    using Cons.prems by (simp add: PutUint64_app)
  have 2: "PutUint64 (?A1 @ drop 8 R) (pos + 8) (fsize e) = Some (?A2 @ drop 16 R)"
    using Cons.prems PutUint64_app[of ?A1 "pos + 8" "drop 8 R" "fsize e"]
    by (simp add: length_le64)
  have 3: "PutUint32 (?A2 @ drop 16 R) (pos + 16) so = Some (?A3 @ drop 20 R)"
    using Cons.prems PutUint32_app[of ?A2 "pos + 16" "drop 16 R" so]
    by (simp add: length_le64)
  have 4: "PutUint32 (?A3 @ drop 20 R) (pos + 20) 0 = Some (?A4 @ drop 24 R)"
    using Cons.prems PutUint32_app[of ?A3 "pos + 20" "drop 20 R" 0]
    by (simp add: length_le64 length_le32)
  have 5: "writeEntries es (?A4 @ drop 24 R) (pos + 24) (so + of_nat (length (name e) + 1)) (fo + fsize e) base
      = Some (?A4 @ entryRecords es (so + of_nat (length (name e) + 1)) (fo + fsize e) @ drop (24 * length es) (drop 24 R),
              assignOffsets es (so + of_nat (length (name e) + 1)) (fo + fsize e) base)"
    using Cons.prems by (intro Cons.IH) (simp_all add: length_le64 length_le32)
  show ?case
    by (simp only: writeEntries.simps 1 2 3 4 5 bind.bind_lunit split entryRecords.simps assignOffsets.simps)
       (simp add: add.commute)
qed

lemma unat_byte: "unat (ucast (drop_bit n (w :: 'a::len word)) :: byte) = (unat w div 2 ^ n) mod 256"
  unfolding unsigned_ucast_eq unat_drop_bit_eq by (simp add: take_bit_eq_mod drop_bit_eq_div)

lemma unat_byte0: "unat (ucast (w :: 'a::len word) :: byte) = unat w mod 256"
  by (simp add: unsigned_ucast_eq take_bit_eq_mod)

lemma le_split: "(x::nat) div 2 ^ n mod 256 + 256 * (x div 2 ^ (n + 8) mod m) = x div 2 ^ n mod (256 * m)"
  by (simp add: mod_mult2_eq power_add div_mult2_eq)

lemma le_nat_le32: "le_nat (le32 v) = unat v"
proof -
  let ?x = "unat v"
  have lt: "?x < 2 ^ 32" using unsigned_less[of v] by simp
  have "le_nat (le32 v) = ?x div 2 ^ 0 mod 256 + 256 * (?x div 2 ^ 8 mod 256 + 256 * (?x div 2 ^ 16 mod 256 + 256 * (?x div 2 ^ 24 mod 256)))"
    unfolding le32_def le_nat.simps unat_byte0 unat_drop_bit_eq by (simp add: drop_bit_eq_div)
  also have "\<dots> = ?x div 2 ^ 0 mod 2 ^ 32"
    using le_split[of ?x 16 256] le_split[of ?x 8 "256 * 256"] le_split[of ?x 0 "256 * (256 * 256)"]
    by simp
  finally show ?thesis using lt by simp
qed

lemma le_nat_le64: "le_nat (le64 v) = unat v"
proof -
  let ?x = "unat v"
  have lt: "?x < 2 ^ 64" using unsigned_less[of v] by simp
  have "le_nat (le64 v) = ?x div 2 ^ 0 mod 256 + 256 * (?x div 2 ^ 8 mod 256 + 256 * (?x div 2 ^ 16 mod 256 + 256 * (?x div 2 ^ 24 mod 256
        + 256 * (?x div 2 ^ 32 mod 256 + 256 * (?x div 2 ^ 40 mod 256 + 256 * (?x div 2 ^ 48 mod 256 + 256 * (?x div 2 ^ 56 mod 256)))))))"
    unfolding le64_def le_nat.simps unat_byte0 unat_drop_bit_eq by (simp add: drop_bit_eq_div)
  also have "\<dots> = ?x div 2 ^ 0 mod 2 ^ 64"
    using le_split[of ?x 48 256] le_split[of ?x 40 "256 ^ 2"] le_split[of ?x 32 "256 ^ 3"]
      le_split[of ?x 24 "256 ^ 4"] le_split[of ?x 16 "256 ^ 5"]  le_split[of ?x 8 "256 ^ 6"]  le_split[of ?x 0 "256 ^ 7"]
    by simp
  finally show ?thesis using lt by simp
qed

lemma length_nameTable: "length (nameTable es) = stringTableSize es"
  by (induction es) (simp_all add: nameTable_def stringTableSize_def bytes_of_def)

lemma copy_at_zero:
  "length A = off \<Longrightarrow> length s \<le> m \<Longrightarrow>
   copy_at (A @ replicate m 0) off s = Some (A @ s @ replicate (m - length s) 0)"
  by (simp add: copy_at_def)

lemma writeNames_closed:
  "offsets_fit (length D) es \<Longrightarrow> length P = sto \<Longrightarrow> stringTableSize es \<le> m \<Longrightarrow>
   writeNames (assignOffsets es (of_nat (length D)) fo base) sto (P @ D @ replicate m 0)
     = Some (P @ D @ nameTable es @ replicate (m - stringTableSize es) 0)"
proof (induction es arbitrary: D m fo)
  case Nil
  then show ?case by (simp add: nameTable_def stringTableSize_def)
next
  case (Cons e es)
  let ?s = "bytes_of (name e)"
  let ?n = "length (name e)"
  have fit: "length D < 2 ^ 32" and fit': "offsets_fit (length (D @ ?s @ [0])) es"
    using Cons.prems(1) by (simp_all add: bytes_of_def)
  have m: "?n + 1 + stringTableSize es \<le> m"
    using Cons.prems(3) by (simp add: stringTableSize_def)
  have u: "unat (of_nat (length D) :: uint32) = length D"
    using fit by (simp add: unat_of_nat)
  have c: "copy_at (P @ D @ replicate m 0) (sto + length D) ?s
             = Some ((P @ D) @ ?s @ replicate (m - ?n) 0)"
    using copy_at_zero[of "P @ D" "sto + length D" ?s m] Cons.prems(2) m
    by (simp add: bytes_of_def)
  have r: "replicate (m - ?n) (0::byte) = [0] @ replicate (m - ?n - 1) 0"
    using m by (cases "m - ?n") simp_all
  have so: "(of_nat (length D) :: uint32) + of_nat (?n + 1) = of_nat (length (D @ ?s @ [0]))"
    by (simp add: bytes_of_def)
  have ih: "writeNames (assignOffsets es (of_nat (length (D @ ?s @ [0]))) (fo + fsize e) base) sto
              (P @ (D @ ?s @ [0]) @ replicate (m - ?n - 1) 0)
            = Some (P @ (D @ ?s @ [0]) @ nameTable es @ replicate (m - ?n - 1 - stringTableSize es) 0)"
    using Cons.prems(2) m by (intro Cons.IH[OF fit']) simp_all
  have st: "stringTableSize (e # es) = ?n + 1 + stringTableSize es"
    by (simp add: stringTableSize_def)
  have nt: "nameTable (e # es) = ?s @ [0] @ nameTable es"
    by (simp add: nameTable_def)
  show ?case
    unfolding assignOffsets.simps writeNames.simps so
    using ih by (simp add: u c r st nt)
qed

lemma length_magic: "length (bytes_of PFS0Magic) = 4"
  by (simp add: bytes_of_def PFS0Magic_def)

lemma generateHeader_closed:
  assumes fit: "offsets_fit 0 (partEntries b)"
  shows "generateHeader b =
           Some (headerLayout (partEntries b),
                 b\<lparr>partEntries := assignOffsets (partEntries b) 0 0 (of_nat (headerSize (partEntries b)))\<rparr>)"
proof -
  let ?es = "partEntries b"
  let ?n = "length ?es"
  let ?sp = "stringTableSize ?es + headerPadding ?es"
  let ?hs = "headerSize ?es"
  let ?M = "bytes_of PFS0Magic"
  let ?A1 = "?M @ le32 (of_nat ?n)"
  let ?A2 = "?A1 @ le32 (of_nat ?sp)"
  let ?A3 = "?A2 @ le32 0"
  have hs: "?hs = 16 + (24 * ?n + ?sp)" by (simp add: headerSize_def)
  have 0: "copy_at (replicate ?hs 0) 0 ?M = Some (?M @ replicate (12 + (24 * ?n + ?sp)) 0)"
    using copy_at_zero[of "[]" 0 ?M ?hs] by (simp add: hs length_magic)
  have 1: "PutUint32 (?M @ replicate (12 + (24 * ?n + ?sp)) 0) 4 (of_nat ?n)
             = Some (?A1 @ replicate (8 + (24 * ?n + ?sp)) 0)"
    using PutUint32_app[of ?M 4 "replicate (12 + (24 * ?n + ?sp)) 0" "of_nat ?n"]
    by (simp add: length_magic)
  have 2: "PutUint32 (?A1 @ replicate (8 + (24 * ?n + ?sp)) 0) 8 (of_nat ?sp)
             = Some (?A2 @ replicate (4 + (24 * ?n + ?sp)) 0)"
    using PutUint32_app[of ?A1 8 "replicate (8 + (24 * ?n + ?sp)) 0" "of_nat ?sp"]
    by (simp add: length_magic length_le32)
  have 3: "PutUint32 (?A2 @ replicate (4 + (24 * ?n + ?sp)) 0) 12 0
             = Some (?A3 @ replicate (24 * ?n + ?sp) 0)"
    using PutUint32_app[of ?A2 12 "replicate (4 + (24 * ?n + ?sp)) 0" 0]
    by (simp add: length_magic length_le32)
  have 4: "writeEntries ?es (?A3 @ replicate (24 * ?n + ?sp) 0) 16 0 0 (of_nat ?hs)
             = Some (?A3 @ entryRecords ?es 0 0 @ replicate ?sp 0,
                     assignOffsets ?es 0 0 (of_nat ?hs))"
    using writeEntries_closed[of ?A3 16 ?es "replicate (24 * ?n + ?sp) 0" 0 0 "of_nat ?hs"]
    by (simp add: length_magic length_le32)
  have 5: "writeNames (assignOffsets ?es 0 0 (of_nat ?hs)) (16 + ?n * 24)
             (?A3 @ entryRecords ?es 0 0 @ replicate ?sp 0)
             = Some ((?A3 @ entryRecords ?es 0 0) @ [] @ nameTable ?es @ replicate (?sp - stringTableSize ?es) 0)"
    using writeNames_closed[of "[]" ?es "?A3 @ entryRecords ?es 0 0" "16 + ?n * 24" ?sp 0 "of_nat ?hs"] fit
    by (simp add: length_magic length_le32 length_entryRecords)
  show ?thesis
    unfolding generateHeader_def Let_def
    by (simp only: 0 1 2 3 4 5 bind.bind_lunit split) (simp add: headerLayout_def)
qed

lemma copy_at_Some:
  "off \<le> length h \<Longrightarrow> \<exists>h'. copy_at h off s = Some h' \<and> length h' = length h \<and> take off h' = take off h"
  by (auto simp: copy_at_def)

lemma writeNames_total:
  "\<forall>e \<in> set es. sto + unat (stringOffset e) \<le> length h \<Longrightarrow>
   \<exists>h'. writeNames es sto h = Some h' \<and> length h' = length h \<and> take sto h' = take sto h"
proof (induction es arbitrary: h)
  case Nil
  then show ?case by simp
next
  case (Cons e es)
  from Cons.prems obtain h1 where c: "copy_at h (sto + unat (stringOffset e)) (bytes_of (name e)) = Some h1"
    and l: "length h1 = length h"
    and t: "take (sto + unat (stringOffset e)) h1 = take (sto + unat (stringOffset e)) h"
    using copy_at_Some[of "sto + unat (stringOffset e)" h "bytes_of (name e)"] by auto
  have t': "take sto h1 = take sto h"
    using arg_cong[OF t, of "take sto"] by (simp add: min_def)
  from Cons.prems l have "\<forall>e \<in> set es. sto + unat (stringOffset e) \<le> length h1" by simp
  from Cons.IH[OF this] obtain h' where "writeNames es sto h1 = Some h'" "length h' = length h1"
    "take sto h' = take sto h1" by blast
  then show ?case using c l t' by simp
qed

lemma unat_add_of_nat_le: "unat (so + of_nat p :: uint32) \<le> unat so + p"
proof -
  have "unat (so + of_nat p :: uint32) \<le> unat so + unat (of_nat p :: uint32)"
    by (simp add: unat_word_ariths)
  also have "unat (of_nat p :: uint32) \<le> p" by (simp add: unat_of_nat)
  finally show ?thesis by simp
qed

lemma assignOffsets_stringOffset_le:
  "e' \<in> set (assignOffsets es so fo base) \<Longrightarrow> unat (stringOffset e') \<le> unat so + stringTableSize es"
proof (induction es arbitrary: so fo)
  case Nil
  then show ?case by simp
next
  case (Cons e es)
  show ?case
  proof (cases "e' = e\<lparr>dataOffset := base + fo, stringOffset := so\<rparr>")
    case True
    then show ?thesis by simp
  next
    case False
    with Cons.prems have "e' \<in> set (assignOffsets es (so + of_nat (length (name e) + 1)) (fo + fsize e) base)"
      by simp
    from Cons.IH[OF this] have "unat (stringOffset e') \<le> unat (so + of_nat (length (name e) + 1)) + stringTableSize es" .
    also have "\<dots> \<le> unat so + (length (name e) + 1) + stringTableSize es"
      using unat_add_of_nat_le[of so "length (name e) + 1"] by simp
    finally show ?thesis by (simp add: stringTableSize_def)
  qed
qed

lemma length_headerPrologue: "length (headerPrologue es) = 16"
  by (simp add: headerPrologue_def length_magic length_le32)

lemma generateHeader_total:
  "\<exists>h. generateHeader b =
           Some (h, b\<lparr>partEntries := assignOffsets (partEntries b) 0 0 (of_nat (headerSize (partEntries b)))\<rparr>)
       \<and> length h = headerSize (partEntries b)
       \<and> take (16 + 24 * length (partEntries b)) h = headerPrologue (partEntries b) @ entryRecords (partEntries b) 0 0"
proof -
  let ?es = "partEntries b"
  let ?n = "length ?es"
  let ?sp = "stringTableSize ?es + headerPadding ?es"
  let ?hs = "headerSize ?es"
  let ?M = "bytes_of PFS0Magic"
  let ?A1 = "?M @ le32 (of_nat ?n)"
  let ?A2 = "?A1 @ le32 (of_nat ?sp)"
  let ?A3 = "?A2 @ le32 0"
  let ?h4 = "?A3 @ entryRecords ?es 0 0 @ replicate ?sp 0"
  have hs: "?hs = 16 + (24 * ?n + ?sp)" by (simp add: headerSize_def)
  have 0: "copy_at (replicate ?hs 0) 0 ?M = Some (?M @ replicate (12 + (24 * ?n + ?sp)) 0)"
    using copy_at_zero[of "[]" 0 ?M ?hs] by (simp add: hs length_magic)
  have 1: "PutUint32 (?M @ replicate (12 + (24 * ?n + ?sp)) 0) 4 (of_nat ?n)
             = Some (?A1 @ replicate (8 + (24 * ?n + ?sp)) 0)"
    using PutUint32_app[of ?M 4 "replicate (12 + (24 * ?n + ?sp)) 0" "of_nat ?n"]
    by (simp add: length_magic)
  have 2: "PutUint32 (?A1 @ replicate (8 + (24 * ?n + ?sp)) 0) 8 (of_nat ?sp)
             = Some (?A2 @ replicate (4 + (24 * ?n + ?sp)) 0)"
    using PutUint32_app[of ?A1 8 "replicate (8 + (24 * ?n + ?sp)) 0" "of_nat ?sp"]
    by (simp add: length_magic length_le32)
  have 3: "PutUint32 (?A2 @ replicate (4 + (24 * ?n + ?sp)) 0) 12 0
             = Some (?A3 @ replicate (24 * ?n + ?sp) 0)"
    using PutUint32_app[of ?A2 12 "replicate (4 + (24 * ?n + ?sp)) 0" 0]
    by (simp add: length_magic length_le32)
  have 4: "writeEntries ?es (?A3 @ replicate (24 * ?n + ?sp) 0) 16 0 0 (of_nat ?hs)
             = Some (?h4, assignOffsets ?es 0 0 (of_nat ?hs))"
    using writeEntries_closed[of ?A3 16 ?es "replicate (24 * ?n + ?sp) 0" 0 0 "of_nat ?hs"]
    by (simp add: length_magic length_le32)
  have len4: "length ?h4 = ?hs"
    by (simp add: hs length_magic length_le32 length_entryRecords)
  have "\<forall>e \<in> set (assignOffsets ?es 0 0 (of_nat ?hs)). (16 + ?n * 24) + unat (stringOffset e) \<le> length ?h4"
    using assignOffsets_stringOffset_le[of _ ?es 0 0 "of_nat ?hs"] unfolding len4 hs by fastforce
  from writeNames_total[OF this] obtain h5 where
    5: "writeNames (assignOffsets ?es 0 0 (of_nat ?hs)) (16 + ?n * 24) ?h4 = Some h5"
    and l5: "length h5 = length ?h4" and t5: "take (16 + ?n * 24) h5 = take (16 + ?n * 24) ?h4"
    by blast
  have g: "generateHeader b = Some (h5, b\<lparr>partEntries := assignOffsets ?es 0 0 (of_nat ?hs)\<rparr>)"
    unfolding generateHeader_def Let_def
    by (simp only: 0 1 2 3 4 5 bind.bind_lunit split)
  have "take (16 + 24 * ?n) h5 = headerPrologue ?es @ entryRecords ?es 0 0"
    using t5 by (simp add: headerPrologue_def length_magic length_le32 length_entryRecords mult.commute)
  with g l5 len4 show ?thesis by simp
qed

lemma stringTableSize_Cons: "stringTableSize (e # es) = length (name e) + 1 + stringTableSize es"
  by (simp add: stringTableSize_def)

lemma offsets_fit_bound: "es \<noteq> [] \<longrightarrow> d + stringTableSize es \<le> 2 ^ 32 \<Longrightarrow> offsets_fit d es"
proof (induction es arbitrary: d)
  case Nil
  then show ?case by simp
next
  case (Cons e es)
  then have b: "d + (length (name e) + 1 + stringTableSize es) \<le> 2 ^ 32"
    by (simp add: stringTableSize_Cons)
  then have "d < 2 ^ 32" by simp
  moreover have "offsets_fit (d + length (name e) + 1) es"
    using b by (intro Cons.IH) (simp add: add.assoc)
  ultimately show ?case by simp
qed

lemma entryRecords_nth:
  "i < length es \<Longrightarrow>
   take 24 (drop (24 * i) (entryRecords es so fo)) =
     le64 (fo + sum_list (map fsize (take i es))) @ le64 (fsize (es ! i)) @
     le32 (so + of_nat (stringTableSize (take i es))) @ le32 0"
proof (induction es arbitrary: i so fo)
  case Nil
  then show ?case by simp
next
  case (Cons e es)
  show ?case
  proof (cases i)
    case 0
    then show ?thesis by (simp add: length_le32 length_le64 stringTableSize_def)
  next
    case (Suc j)
    then have j: "j < length es" using Cons.prems by simp
    have d: "drop (24 * i) (entryRecords (e # es) so fo)
               = drop (24 * j) (entryRecords es (so + of_nat (length (name e) + 1)) (fo + fsize e))"
      using Suc by (simp add: length_le32 length_le64)
    show ?thesis
      unfolding d Cons.IH[OF j] using Suc
      by (simp add: stringTableSize_Cons add.assoc)
  qed
qed

lemma nameTable_Cons: "nameTable (e # es) = bytes_of (name e) @ [0] @ nameTable es"
  by (simp add: nameTable_def)

lemma nameTable_nth:
  "i < length es \<Longrightarrow>
   take (length (name (es ! i)) + 1) (drop (stringTableSize (take i es)) (nameTable es)) =
     bytes_of (name (es ! i)) @ [0]"
proof (induction es arbitrary: i)
  case Nil
  then show ?case by simp
next
  case (Cons e es)
  show ?case
  proof (cases i)
    case 0
    then show ?thesis by (simp add: nameTable_Cons stringTableSize_def bytes_of_def)
  next
    case (Suc j)
    then have j: "j < length es" using Cons.prems by simp
    show ?thesis using Suc Cons.IH[OF j]
      by (simp add: nameTable_Cons stringTableSize_Cons bytes_of_def)
  qed
qed

lemma pad16:
  fixes x :: nat
  shows "(x + (if x mod 16 > 0 then 16 - x mod 16 else 0)) mod 16 = 0"
proof -
  define q where "q = x div 16"
  define r where "r = x mod 16"
  have x: "x = 16 * q + r" and r: "r < 16" by (simp_all add: q_def r_def)
  have "r > 0 \<Longrightarrow> x + (16 - r) = 16 * (q + 1)" using x r by simp
  then have "r > 0 \<Longrightarrow> (x + (16 - r)) mod 16 = 0" by simp
  then show ?thesis unfolding r_def[symmetric] by (simp add: r_def)
qed

lemma pad16_div:
  fixes x :: nat
  shows "x + (if x mod 16 > 0 then 16 - x mod 16 else 0) = ((x + 15) div 16) * 16"
proof -
  define q where "q = x div 16"
  define r where "r = x mod 16"
  have x: "x = 16 * q + r" and r: "r < 16" by (simp_all add: q_def r_def)
  show ?thesis
  proof (cases "r > 0")
    case True
    have "x + 15 = (r - 1) + (q + 1) * 16" using x True by simp
    then have "(x + 15) div 16 = q + 1" using r by simp
    then show ?thesis using True x r unfolding r_def[symmetric] by simp
  next
    case False
    then have "x + 15 = 15 + q * 16" using x by simp
    then have "(x + 15) div 16 = q" by simp
    then show ?thesis using False x unfolding r_def[symmetric] by simp
  qed
qed

lemma headerSize_mod16: "headerSize es mod 16 = 0"
  using pad16[of "16 + length es * 24 + stringTableSize es"]
  unfolding headerSize_def headerPadding_def Let_def by simp

lemma headerSize_roundup:
  "headerSize es = ((16 + 24 * length es + stringTableSize es + 15) div 16) * 16"
  using pad16_div[of "16 + length es * 24 + stringTableSize es"]
  unfolding headerSize_def headerPadding_def Let_def by (simp add: mult.commute)

lemma length_assignOffsets: "length (assignOffsets es so fo base) = length es"
  by (induction es arbitrary: so fo) simp_all

lemma assignOffsets_nth:
  "i < length es \<Longrightarrow>
   assignOffsets es so fo base ! i =
     (es ! i)\<lparr>dataOffset := base + (fo + sum_list (map fsize (take i es))),
              stringOffset := so + of_nat (stringTableSize (take i es))\<rparr>"
proof (induction es arbitrary: i so fo)
  case Nil
  then show ?case by simp
next
  case (Cons e es)
  show ?case
  proof (cases i)
    case 0
    then show ?thesis by (simp add: stringTableSize_def)
  next
    case (Suc j)
    then have "j < length es" using Cons.prems by simp
    from Cons.IH[OF this] show ?thesis using Suc
      by (simp add: stringTableSize_Cons add.assoc)
  qed
qed

lemma length_headerLayout: "length (headerLayout es) = headerSize es"
  by (simp add: headerLayout_def headerSize_def length_magic length_le32 length_entryRecords
      length_nameTable)

lemma headerLayout_split:
  "headerLayout es = headerPrologue es @ entryRecords es 0 0 @ nameTable es @ replicate (headerPadding es) 0"
  by (simp add: headerLayout_def headerPrologue_def)

lemma field_prologue:
  "off + n \<le> 16 \<Longrightarrow> field off n (headerLayout es) = field off n (headerPrologue es)"
  by (simp add: field_def headerLayout_split length_headerPrologue)

lemma field_magic: "field 0 4 (headerPrologue es) = bytes_of PFS0Magic"
  by (simp add: field_def headerPrologue_def length_magic)

lemma field_count: "field 4 4 (headerPrologue es) = le32 (of_nat (length es))"
  by (simp add: field_def headerPrologue_def length_magic length_le32)

lemma field_strsize:
  "field 8 4 (headerPrologue es) = le32 (of_nat (stringTableSize es + headerPadding es))"
  by (simp add: field_def headerPrologue_def length_magic length_le32)

lemma field_reserved: "field 12 4 (headerPrologue es) = le32 0"
  by (simp add: field_def headerPrologue_def length_magic length_le32)

lemma field_record:
  assumes "i < length es"
  shows "field (16 + 24 * i) 24 (headerLayout es) =
           le64 (sum_list (map fsize (take i es))) @ le64 (fsize (es ! i)) @
           le32 (of_nat (stringTableSize (take i es))) @ le32 0"
proof -
  have l: "24 * i + 24 \<le> length (entryRecords es 0 0)"
    using assms by (simp add: length_entryRecords)
  have "field (16 + 24 * i) 24 (headerLayout es) = take 24 (drop (24 * i) (entryRecords es 0 0))"
    using l by (simp add: field_def headerLayout_split length_headerPrologue)
  then show ?thesis using entryRecords_nth[OF assms, of 0 0] by simp
qed

lemma field_name:
  assumes "i < length es"
  shows "field (16 + 24 * length es + stringTableSize (take i es)) (length (name (es ! i)) + 1)
           (headerLayout es) = bytes_of (name (es ! i)) @ [0]"
proof -
  have s: "stringTableSize es = stringTableSize (take i es) + stringTableSize (drop i es)"
    unfolding stringTableSize_def by (metis append_take_drop_id map_append sum_list_append)
  have "drop i es = es ! i # drop (Suc i) es" using assms by (simp add: Cons_nth_drop_Suc)
  then have "length (name (es ! i)) + 1 \<le> stringTableSize (drop i es)"
    by (simp add: stringTableSize_Cons)
  then have l: "stringTableSize (take i es) + (length (name (es ! i)) + 1) \<le> length (nameTable es)"
    using s by (simp add: length_nameTable)
  have "field (16 + 24 * length es + stringTableSize (take i es)) (length (name (es ! i)) + 1)
           (headerLayout es)
        = take (length (name (es ! i)) + 1) (drop (stringTableSize (take i es)) (nameTable es))"
    using l by (simp add: field_def headerLayout_split length_headerPrologue length_entryRecords)
  then show ?thesis using nameTable_nth[OF assms] by simp
qed

lemma drop_padding:
  "drop (16 + 24 * length es + stringTableSize es) (headerLayout es) = replicate (headerPadding es) 0"
  by (simp add: headerLayout_split length_headerPrologue length_entryRecords length_nameTable)

lemma field_field: "o2 + n2 \<le> n1 \<Longrightarrow> field o2 n2 (field o1 n1 h) = field (o1 + o2) n2 h"
  unfolding field_def drop_take drop_drop take_take by (simp add: min_def add.commute)

lemma length_le_stringTableSize: "length es \<le> stringTableSize es"
  by (induction es) (simp_all add: stringTableSize_def)

lemma stringTableSize_take_le: "stringTableSize (take i es) \<le> stringTableSize es"
proof -
  have "stringTableSize es = stringTableSize (take i es) + stringTableSize (drop i es)"
    unfolding stringTableSize_def by (metis append_take_drop_id map_append sum_list_append)
  then show ?thesis by simp
qed

lemma headerPadding_eq: "headerPadding es = headerSize es - (16 + 24 * length es + stringTableSize es)"
  by (simp add: headerSize_def)

lemma unat_of_nat32: "n < 2 ^ 32 \<Longrightarrow> unat (of_nat n :: uint32) = n"
  by (simp add: unat_of_nat)

text \<open>
  Claim C2, as amended. For every builder whose name table with its padding is below
  \<open>2^32\<close> bytes, \<open>generateHeader\<close> returns a buffer without a panic. Its length is
  \<open>16 + 24 * N + sum (len name + 1)\<close> rounded up to the next multiple of 16. It holds the
  magic \<open>PFS0\<close> at offset 0, the little-endian entry count at 4, the little-endian size of
  the name table with its padding at 8 and a zero word at 12; then for the entry of index
  \<open>i\<close>, in the order of the builder's list (which \<open>Build\<close> has sorted), a record of 24
  bytes at \<open>16 + 24 * i\<close>: the data offset relative to the end of the header, the size,
  the offset of the name in the name table (the sum of \<open>len name + 1\<close> over the entries
  before it) and a zero word; then the name with its terminator at \<open>16 + 24 * N\<close> plus
  that offset; and all bytes after the last name are zero.
\<close>

theorem generateHeader_layout:
  assumes "stringTableSize (partEntries b) + headerPadding (partEntries b) < 2 ^ 32"
  shows "let es = partEntries b; n = length es; sts = stringTableSize es in
         \<exists>h b'. generateHeader b = Some (h, b') \<and>
           length h = (16 + 24 * n + sts + 15) div 16 * 16 \<and>
           length h mod 16 = 0 \<and>
           field 0 4 h = bytes_of ''PFS0'' \<and>
           le_nat (field 4 4 h) = n \<and>
           le_nat (field 8 4 h) = sts + (length h - (16 + 24 * n + sts)) \<and>
           le_nat (field 12 4 h) = 0 \<and>
           (\<forall>i<n.
              field (16 + 24 * i) 8 h = le64 (dataOffset (partEntries b' ! i) - of_nat (length h)) \<and>
              field (16 + 24 * i + 8) 8 h = le64 (fsize (es ! i)) \<and>
              le_nat (field (16 + 24 * i + 16) 4 h) = stringTableSize (take i es) \<and>
              le_nat (field (16 + 24 * i + 20) 4 h) = 0 \<and>
              field (16 + 24 * n + stringTableSize (take i es)) (length (name (es ! i)) + 1) h
                = bytes_of (name (es ! i)) @ [0]) \<and>
           drop (16 + 24 * n + sts) h = replicate (length h - (16 + 24 * n + sts)) 0"
proof -
  let ?es = "partEntries b"
  let ?n = "length ?es"
  let ?sts = "stringTableSize ?es"
  let ?h = "headerLayout ?es"
  let ?es' = "assignOffsets ?es 0 0 (of_nat (headerSize ?es))"
  let ?b' = "b\<lparr>partEntries := ?es'\<rparr>"
  have sts: "?sts < 2 ^ 32" using assms by simp
  have g: "generateHeader b = Some (?h, ?b')"
    using sts by (intro generateHeader_closed offsets_fit_bound) simp
  have len: "length ?h = headerSize ?es" by (rule length_headerLayout)
  have 1: "length ?h = (16 + 24 * ?n + ?sts + 15) div 16 * 16"
    unfolding len by (rule headerSize_roundup)
  have 2: "length ?h mod 16 = 0" unfolding len by (rule headerSize_mod16)
  have 3: "field 0 4 ?h = bytes_of ''PFS0''"
    by (simp add: field_prologue field_magic PFS0Magic_def)
  have n: "?n < 2 ^ 32" using sts length_le_stringTableSize[of ?es] by simp
  have 4: "le_nat (field 4 4 ?h) = ?n"
    using n by (simp add: field_prologue field_count le_nat_le32 unat_of_nat32)
  have 5: "le_nat (field 8 4 ?h) = ?sts + (length ?h - (16 + 24 * ?n + ?sts))"
    using unat_of_nat32[OF assms] unfolding len headerPadding_eq[symmetric]
    by (simp add: field_prologue field_strsize le_nat_le32 del: of_nat_add)
  have 6: "le_nat (field 12 4 ?h) = 0"
    by (simp add: field_prologue field_reserved le_nat_le32)
  have 7: "field (16 + 24 * i) 8 ?h = le64 (dataOffset (partEntries ?b' ! i) - of_nat (length ?h)) \<and>
           field (16 + 24 * i + 8) 8 ?h = le64 (fsize (?es ! i)) \<and>
           le_nat (field (16 + 24 * i + 16) 4 ?h) = stringTableSize (take i ?es) \<and>
           le_nat (field (16 + 24 * i + 20) 4 ?h) = 0 \<and>
           field (16 + 24 * ?n + stringTableSize (take i ?es)) (length (name (?es ! i)) + 1) ?h
             = bytes_of (name (?es ! i)) @ [0]" if i: "i < ?n" for i
  proof -
    let ?r = "field (16 + 24 * i) 24 ?h"
    have r: "?r = le64 (sum_list (map fsize (take i ?es))) @ le64 (fsize (?es ! i)) @
                  le32 (of_nat (stringTableSize (take i ?es))) @ le32 0"
      by (rule field_record[OF i])
    have a: "field (16 + 24 * i) 8 ?h = field 0 8 ?r" by (simp add: field_field)
    have b: "field (16 + 24 * i + 8) 8 ?h = field 8 8 ?r" by (simp add: field_field)
    have c: "field (16 + 24 * i + 16) 4 ?h = field 16 4 ?r" by (simp add: field_field)
    have d: "field (16 + 24 * i + 20) 4 ?h = field 20 4 ?r" by (simp add: field_field)
    have off: "dataOffset (partEntries ?b' ! i) - of_nat (length ?h) = sum_list (map fsize (take i ?es))"
      using assignOffsets_nth[OF i, of 0 0 "of_nat (headerSize ?es)"] by (simp add: len)
    have so: "stringTableSize (take i ?es) < 2 ^ 32"
      using stringTableSize_take_le[of i ?es] sts by simp
    have "field 0 8 ?r = le64 (sum_list (map fsize (take i ?es)))"
      unfolding r by (simp add: field_def length_le64)
    moreover have "field 8 8 ?r = le64 (fsize (?es ! i))"
      unfolding r by (simp add: field_def length_le64)
    moreover have "field 16 4 ?r = le32 (of_nat (stringTableSize (take i ?es)))"
      unfolding r by (simp add: field_def length_le64 length_le32)
    moreover have "field 20 4 ?r = le32 0"
      unfolding r by (simp add: field_def length_le64 length_le32)
    ultimately show ?thesis
      unfolding a b c d off using so field_name[OF i]
      by (simp add: le_nat_le32 unat_of_nat32)
  qed
  have 8: "drop (16 + 24 * ?n + ?sts) ?h = replicate (length ?h - (16 + 24 * ?n + ?sts)) 0"
    unfolding len headerPadding_eq[symmetric] by (rule drop_padding)
  show ?thesis
    unfolding Let_def
    apply (rule exI[of _ ?h], rule exI[of _ ?b'])
    using g 1 2 3 4 5 6 7 8 by blast
qed

lemma stringTableSize_replicate: "stringTableSize (replicate n e) = n * (length (name e) + 1)"
  by (simp add: stringTableSize_def sum_list_replicate)

lemma length_longName: "length longName = 255"
  unfolding longName_def by (rule length_replicate)

lemma manyNames_size: "stringTableSize (partEntries manyNames) = 4294967296"
  by (simp add: manyNames_def stringTableSize_replicate length_longName)

lemma manyNames_length: "length (partEntries manyNames) = 2 ^ 24"
  by (simp add: manyNames_def)

lemma manyNames_padding: "headerPadding (partEntries manyNames) = 0"
  unfolding headerPadding_def manyNames_size manyNames_length Let_def by simp

text \<open>
  Claim C2 as stated fails for a name table of \<open>2^32\<close> bytes: with \<open>2^24\<close> entries whose
  names have 255 bytes, the 32-bit field at offset 8 holds 0, while the names with their
  terminators take 4294967296 bytes.
\<close>

theorem generateHeader_layout_counterexample:
  "map_option (le_nat \<circ> field 8 4 \<circ> fst) (generateHeader manyNames) = Some 0 \<and>
   stringTableSize (partEntries manyNames) + headerPadding (partEntries manyNames) = 4294967296"
proof -
  have "offsets_fit 0 (partEntries manyNames)"
    by (rule offsets_fit_bound) (simp add: manyNames_size)
  from generateHeader_closed[OF this]
  have "map_option (le_nat \<circ> field 8 4 \<circ> fst) (generateHeader manyNames)
          = Some (le_nat (field 8 4 (headerLayout (partEntries manyNames))))"
    by simp
  also have "le_nat (field 8 4 (headerLayout (partEntries manyNames))) = 0"
    unfolding field_prologue[of 8 4, simplified] field_strsize le_nat_le32 manyNames_size manyNames_padding
    by (simp add: unat_of_nat)
  finally show ?thesis by (simp add: manyNames_size manyNames_padding)
qed

text \<open>The layout of the header of two entries \<open>a.bin\<close> and \<open>b.bin\<close>.\<close>

theorem generateHeader_layout_witness:
  "stringTableSize (partEntries twoFiles) + headerPadding (partEntries twoFiles) < 2 ^ 32 \<and>
   map_option (length \<circ> fst) (generateHeader twoFiles) = Some 80 \<and>
   map_option (le_nat \<circ> field 4 4 \<circ> fst) (generateHeader twoFiles) = Some 2 \<and>
   map_option (le_nat \<circ> field 8 4 \<circ> fst) (generateHeader twoFiles) = Some 16 \<and>
   map_option (le_nat \<circ> field 56 4 \<circ> fst) (generateHeader twoFiles) = Some 6 \<and>
   map_option (field 70 6 \<circ> fst) (generateHeader twoFiles) = Some (bytes_of ''b.bin'' @ [0])"
proof -
  have s: "stringTableSize (partEntries twoFiles) = 12"
    by (simp add: twoFiles_def stringTableSize_def)
  have p: "headerPadding (partEntries twoFiles) = 4"
    by (simp add: headerPadding_def s) (simp add: twoFiles_def)
  have h: "stringTableSize (partEntries twoFiles) + headerPadding (partEntries twoFiles) < 2 ^ 32"
    by (simp add: s p)
  have n: "length (partEntries twoFiles) = 2" by (simp add: twoFiles_def)
  have t: "stringTableSize (take 1 (partEntries twoFiles)) = 6"
    by (simp add: twoFiles_def stringTableSize_def)
  have e: "name (partEntries twoFiles ! 1) = ''b.bin''" by (simp add: twoFiles_def)
  have six: "Suc (Suc (Suc (Suc (Suc (Suc 0))))) = 6" by simp
  from generateHeader_layout[OF h] obtain hd b' where
    g: "generateHeader twoFiles = Some (hd, b')" and
    l: "length hd = 80" and c: "le_nat (field 4 4 hd) = 2" and z: "le_nat (field 8 4 hd) = 16" and
    r: "\<forall>i<2. le_nat (field (16 + 24 * i + 16) 4 hd) = stringTableSize (take i (partEntries twoFiles)) \<and>
         field (16 + 24 * 2 + stringTableSize (take i (partEntries twoFiles)))
           (length (name (partEntries twoFiles ! i)) + 1) hd = bytes_of (name (partEntries twoFiles ! i)) @ [0]"
    unfolding Let_def n s by auto
  from r have "le_nat (field 56 4 hd) = 6" "field 70 6 hd = bytes_of ''b.bin'' @ [0]"
    using t e by (auto dest!: spec[of _ 1] simp: six)
  with h g l c z show ?thesis by simp
qed

lemma map_fsize_assignOffsets: "map fsize (assignOffsets es so fo base) = map fsize es"
  by (induction es arbitrary: so fo) simp_all

lemma map_name_assignOffsets: "map name (assignOffsets es so fo base) = map name es"
  by (induction es arbitrary: so fo) simp_all

lemma map_path_assignOffsets: "map path (assignOffsets es so fo base) = map path es"
  by (induction es arbitrary: so fo) simp_all

lemma unat_sum_list:
  "sum_list (map unat ws) < 2 ^ 64 \<Longrightarrow> unat (sum_list ws :: uint64) = sum_list (map unat ws)"
proof (induction ws)
  case Nil
  then show ?case by simp
next
  case (Cons w ws)
  then have "unat (sum_list ws) = sum_list (map unat ws)" by simp
  moreover have "unat w + sum_list (map unat ws) < 2 ^ 64" using Cons.prems by simp
  ultimately show ?case by (simp add: unat_add_lem[THEN iffD1])
qed

lemma sum_list_take_le:
  fixes xs :: "nat list"
  shows "sum_list (take i xs) \<le> sum_list xs"
proof -
  have "sum_list xs = sum_list (take i xs) + sum_list (drop i xs)"
    by (metis append_take_drop_id sum_list_append)
  then show ?thesis by simp
qed

lemma sum_list_take_Suc:
  fixes xs :: "'a::monoid_add list"
  shows "i < length xs \<Longrightarrow> sum_list (take (Suc i) xs) = sum_list (take i xs) + xs ! i"
  by (simp add: take_Suc_conv_app_nth)

lemma field_take: "off + n \<le> m \<Longrightarrow> field off n (take m h) = field off n h"
  unfolding field_def drop_take take_take by (simp add: min_def)

text \<open>
  Claim C3, as amended. After header generation the absolute data offsets are contiguous
  in 64-bit arithmetic: the offset of entry \<open>i + 1\<close> is the offset of entry \<open>i\<close> plus its
  size (modulo \<open>2^64\<close>), the first offset is the size of the whole header, padding
  included, and the relative offset in each record is the sum of the sizes of the entries
  before it. When the header and the payloads together stay below \<open>2^64\<close> bytes nothing
  wraps, and the offsets increase monotonically.
\<close>

theorem dataOffsets_contiguous:
  "\<exists>h b'. generateHeader b = Some (h, b') \<and>
     (let es' = partEntries b' in
        map fsize es' = map fsize (partEntries b) \<and>
        (es' \<noteq> [] \<longrightarrow> dataOffset (es' ! 0) = of_nat (length h)) \<and>
        (\<forall>i. i + 1 < length es' \<longrightarrow>
           dataOffset (es' ! (i + 1)) = dataOffset (es' ! i) + fsize (es' ! i)) \<and>
        (\<forall>i<length es'.
           field (16 + 24 * i) 8 h = le64 (sum_list (map fsize (take i es'))) \<and>
           dataOffset (es' ! i) = of_nat (length h) + sum_list (map fsize (take i es'))) \<and>
        (length h + sum_list (map (unat \<circ> fsize) es') < 2 ^ 64 \<longrightarrow>
           (es' \<noteq> [] \<longrightarrow> unat (dataOffset (es' ! 0)) = length h) \<and>
           (\<forall>i. i + 1 < length es' \<longrightarrow>
              unat (dataOffset (es' ! (i + 1))) = unat (dataOffset (es' ! i)) + unat (fsize (es' ! i)) \<and>
              dataOffset (es' ! i) \<le> dataOffset (es' ! (i + 1)))))"
proof -
  let ?es = "partEntries b"
  let ?hs = "headerSize ?es"
  let ?es' = "assignOffsets ?es 0 0 (of_nat ?hs)"
  from generateHeader_total[of b] obtain h where
    g: "generateHeader b = Some (h, b\<lparr>partEntries := ?es'\<rparr>)" and
    len: "length h = ?hs" and
    tk: "take (16 + 24 * length ?es) h = headerPrologue ?es @ entryRecords ?es 0 0"
    by blast
  have n: "length ?es' = length ?es" by (rule length_assignOffsets)
  have fs: "map fsize ?es' = map fsize ?es" by (rule map_fsize_assignOffsets)
  have fsi: "fsize (?es' ! i) = fsize (?es ! i)" if "i < length ?es" for i
    using assignOffsets_nth[OF that, of 0 0 "of_nat ?hs"] by simp
  have tfs: "map fsize (take i ?es') = map fsize (take i ?es)" for i
    using fs by (simp add: take_map[symmetric])
  have off: "dataOffset (?es' ! i) = of_nat (length h) + sum_list (map fsize (take i ?es'))"
    if "i < length ?es" for i
    using assignOffsets_nth[OF that, of 0 0 "of_nat ?hs"] by (simp add: len tfs)
  have first: "?es' \<noteq> [] \<longrightarrow> dataOffset (?es' ! 0) = of_nat (length h)"
  proof
    assume "?es' \<noteq> []"
    then have "0 < length ?es" using n by (cases ?es') auto
    from off[OF this] show "dataOffset (?es' ! 0) = of_nat (length h)" by simp
  qed
  have step: "dataOffset (?es' ! (i + 1)) = dataOffset (?es' ! i) + fsize (?es' ! i)"
    if "i + 1 < length ?es'" for i
  proof -
    have i: "i < length ?es'" "i + 1 < length ?es" "i < length ?es" using that n by simp_all
    have "sum_list (map fsize (take (i + 1) ?es')) = sum_list (map fsize (take i ?es')) + fsize (?es' ! i)"
      using i(1) by (simp add: take_Suc_conv_app_nth)
    then show ?thesis using off[OF i(2)] off[OF i(3)] by (simp add: add.assoc)
  qed
  have rec: "field (16 + 24 * i) 8 h = le64 (sum_list (map fsize (take i ?es')))"
    if i: "i < length ?es" for i
  proof -
    have "field (16 + 24 * i) 8 h = field (16 + 24 * i) 8 (take (16 + 24 * length ?es) h)"
      using i by (simp add: field_take)
    also have "\<dots> = take 8 (take 24 (drop (24 * i) (entryRecords ?es 0 0)))"
      unfolding tk using i
      by (simp add: field_def length_headerPrologue length_entryRecords)
    also have "\<dots> = le64 (sum_list (map fsize (take i ?es)))"
      unfolding entryRecords_nth[OF i] by (simp add: length_le64)
    finally show ?thesis by (simp add: tfs)
  qed
  have nowrap: "(?es' \<noteq> [] \<longrightarrow> unat (dataOffset (?es' ! 0)) = length h) \<and>
      (\<forall>i. i + 1 < length ?es' \<longrightarrow>
         unat (dataOffset (?es' ! (i + 1))) = unat (dataOffset (?es' ! i)) + unat (fsize (?es' ! i)) \<and>
         dataOffset (?es' ! i) \<le> dataOffset (?es' ! (i + 1)))"
    if small: "length h + sum_list (map (unat \<circ> fsize) ?es') < 2 ^ 64"
  proof -
    have hlt: "length h < 2 ^ 64" using small by simp
    have uh: "unat (of_nat (length h) :: uint64) = length h"
      using hlt by (simp add: unat_of_nat)
    have pre: "sum_list (map unat (map fsize (take i ?es'))) \<le> sum_list (map (unat \<circ> fsize) ?es')" for i
      using sum_list_take_le[of i "map (unat \<circ> fsize) ?es'"] by (simp add: take_map)
    have us: "unat (sum_list (map fsize (take i ?es'))) = sum_list (map unat (map fsize (take i ?es')))" for i
      using pre[of i] small by (intro unat_sum_list) simp
    have uo: "unat (dataOffset (?es' ! i)) = length h + sum_list (map unat (map fsize (take i ?es')))"
      if "i < length ?es" for i
      unfolding off[OF that] using pre[of i] small uh us[of i]
      by (simp add: unat_add_lem[THEN iffD1])
    have a: "?es' \<noteq> [] \<longrightarrow> unat (dataOffset (?es' ! 0)) = length h"
      using first uh by simp
    have b: "unat (dataOffset (?es' ! (i + 1))) = unat (dataOffset (?es' ! i)) + unat (fsize (?es' ! i)) \<and>
             dataOffset (?es' ! i) \<le> dataOffset (?es' ! (i + 1))" if "i + 1 < length ?es'" for i
    proof -
      have i: "i < length ?es'" "i + 1 < length ?es" "i < length ?es" using that n by simp_all
      have "sum_list (map unat (map fsize (take (i + 1) ?es')))
              = sum_list (map unat (map fsize (take i ?es'))) + unat (fsize (?es' ! i))"
        using i(1) by (simp add: take_Suc_conv_app_nth)
      then have e: "unat (dataOffset (?es' ! (i + 1))) = unat (dataOffset (?es' ! i)) + unat (fsize (?es' ! i))"
        using uo[OF i(2)] uo[OF i(3)] by simp
      then show ?thesis by (simp add: word_le_nat_alt)
    qed
    show ?thesis using a b by blast
  qed
  show ?thesis
    apply (rule exI[of _ h], rule exI[of _ "b\<lparr>partEntries := ?es'\<rparr>"])
    unfolding Let_def
    using g fs first step rec off nowrap n by simp
qed

text \<open>
  Claim C3 as stated fails when the sizes pass \<open>2^64\<close>: for three entries of
  \<open>2^63 - 1\<close> bytes the third offset, 94, lies below the second.
\<close>

theorem dataOffsets_contiguous_counterexample:
  "map_option (map dataOffset \<circ> partEntries \<circ> snd) (generateHeader threeHuge)
     = Some [96, 9223372036854775903, 94] \<and>
   (94 :: uint64) < 9223372036854775903"
proof -
  have hs: "headerSize (partEntries threeHuge) = 96"
    by (simp add: headerSize_def headerPadding_def stringTableSize_def threeHuge_def)
  from generateHeader_total[of threeHuge] obtain h where
    "generateHeader threeHuge =
       Some (h, threeHuge\<lparr>partEntries := assignOffsets (partEntries threeHuge) 0 0 (of_nat 96)\<rparr>)"
    unfolding hs by blast
  then have "map_option (map dataOffset \<circ> partEntries \<circ> snd) (generateHeader threeHuge)
      = Some (map dataOffset (assignOffsets (partEntries threeHuge) 0 0 96))"
    by simp
  also have "map dataOffset (assignOffsets (partEntries threeHuge) 0 0 96)
      = [96, 9223372036854775903, 94]"
    by (simp add: threeHuge_def)
  finally show ?thesis by simp
qed

text \<open>The two entries \<open>a.bin\<close> (2 bytes) and \<open>b.bin\<close> (3 bytes) lie at 80 and 82.\<close>

theorem dataOffsets_contiguous_witness:
  "map_option (length \<circ> fst) (generateHeader twoFiles) = Some 80 \<and>
   (80 :: nat) + sum_list (map (unat \<circ> fsize) (partEntries twoFiles)) < 2 ^ 64 \<and>
   map_option (map (unat \<circ> dataOffset) \<circ> partEntries \<circ> snd) (generateHeader twoFiles)
     = Some [80, 82]"
proof -
  have hs: "headerSize (partEntries twoFiles) = 80"
    by (simp add: headerSize_def headerPadding_def stringTableSize_def twoFiles_def)
  from dataOffsets_contiguous[of twoFiles] obtain h b' where
    g: "generateHeader twoFiles = Some (h, b')" and
    fs: "map fsize (partEntries b') = map fsize (partEntries twoFiles)" and
    nw: "length h + sum_list (map (unat \<circ> fsize) (partEntries b')) < 2 ^ 64 \<longrightarrow>
           (partEntries b' \<noteq> [] \<longrightarrow> unat (dataOffset (partEntries b' ! 0)) = length h) \<and>
           (\<forall>i. i + 1 < length (partEntries b') \<longrightarrow>
              unat (dataOffset (partEntries b' ! (i + 1)))
                = unat (dataOffset (partEntries b' ! i)) + unat (fsize (partEntries b' ! i)) \<and>
              dataOffset (partEntries b' ! i) \<le> dataOffset (partEntries b' ! (i + 1)))"
    unfolding Let_def by blast
  from generateHeader_total[of twoFiles] g have len: "length h = 80"
    unfolding hs by auto
  have sizes: "map fsize (partEntries b') = [2, 3]" using fs by (simp add: twoFiles_def)
  then obtain e0 e1 where es: "partEntries b' = [e0, e1]" and s0: "fsize e0 = 2" by auto
  have sm: "sum_list (map (unat \<circ> fsize) (partEntries b')) = 5"
    using sizes by (simp add: es)
  have small: "length h + sum_list (map (unat \<circ> fsize) (partEntries b')) < 2 ^ 64"
    unfolding len sm by simp
  from nw[rule_format, OF small] have
    a: "unat (dataOffset (partEntries b' ! 0)) = length h" and
    b: "unat (dataOffset (partEntries b' ! (0 + 1)))
          = unat (dataOffset (partEntries b' ! 0)) + unat (fsize (partEntries b' ! 0))"
    by (simp_all add: es)
  have "map (unat \<circ> dataOffset) (partEntries b') = [80, 82]"
    using a b len s0 by (simp add: es)
  then show ?thesis using g len by (simp add: twoFiles_def)
qed

text \<open>
  Claim C7. When \<open>os.Stat\<close> fails, \<open>AddFile\<close> returns an error and the builder as it
  was. When it succeeds, \<open>AddFile\<close> returns no error and the builder with exactly one more
  entry, at the end: its path is the given path, its name the base name of the path, its
  size the size that stat reported. \<open>AddFile\<close> reads the file system and returns none:
  nothing on disk changes.
\<close>

theorem AddFile_registers:
  "(case os_Stat fs p of
      Inl err \<Rightarrow> AddFile fs b p = (Some (AddFileFailed p err), b)
    | Inr info \<Rightarrow>
        (\<exists>e. AddFile fs b p = (None, b\<lparr>partEntries := partEntries b @ [e]\<rparr>) \<and>
             path e = p \<and> name e = Name info \<and> Name info = basename p \<and>
             uint (fsize e) = Size info))"
proof (cases "os_Stat fs p")
  case (Inl err)
  then show ?thesis by (simp add: AddFile_def)
next
  case (Inr info)
  then obtain c where c: "fs p = Some c" "length c \<le> MaxFileSize"
    and i: "info = \<lparr>Name = basename p, Size = int (length c)\<rparr>"
    by (auto simp: os_Stat_def split: option.splits if_splits)
  have "length c < 2 ^ 64" using c(2) by (simp add: MaxFileSize_def)
  then have "unat (of_nat (length c) :: uint64) = length c" by (simp add: unat_of_nat)
  then have u: "uint (of_nat (length c) :: uint64) = int (length c)"
    by (simp only: uint_nat)
  let ?e = "\<lparr>path = p, name = basename p, fsize = of_nat (length c) :: uint64,
             dataOffset = 0, stringOffset = 0\<rparr>"
  have "AddFile fs b p = (None, b\<lparr>partEntries := partEntries b @ [?e]\<rparr>)"
    using Inr i by (simp add: AddFile_def)
  moreover have "path ?e = p \<and> name ?e = Name info \<and> Name info = basename p \<and>
                 uint (fsize ?e) = Size info"
    using u i by simp
  ultimately have "\<exists>e. AddFile fs b p = (None, b\<lparr>partEntries := partEntries b @ [e]\<rparr>) \<and>
             path e = p \<and> name e = Name info \<and> Name info = basename p \<and>
             uint (fsize e) = Size info"
    by blast
  then show ?thesis unfolding Inr by (simp only: sum.case)
qed

text \<open>
  Claim C8. \<open>Build\<close> on a builder without entries returns the error for no input files at
  once; the builder and the file system, the output path included, are as before.
\<close>

theorem Build_no_input:
  "partEntries b = [] \<Longrightarrow> Build sort_Slice b fs = (Some NoInputFiles, b, fs)"
  by (simp add: Build_def)

theorem Build_no_input_witness:
  "partEntries emptyBuilder = [] \<and>
   Build (sort_key name) emptyBuilder fileSystem2 = (Some NoInputFiles, emptyBuilder, fileSystem2)"
proof -
  have e: "partEntries emptyBuilder = []" by (simp add: emptyBuilder_def)
  from Build_no_input[OF e] e show ?thesis by simp
qed

lemma sorts_by_name_sort_key: "sorts_by_name (sort_key name)"
  by (simp add: sorts_by_name_def)

lemma stringTableSize_mset: "mset es = mset es' \<Longrightarrow> stringTableSize es = stringTableSize es'"
proof -
  assume "mset es = mset es'"
  then have "mset (map (\<lambda>file. length (name file) + 1) es) = mset (map (\<lambda>file. length (name file) + 1) es')"
    by simp
  then show ?thesis unfolding stringTableSize_def by (metis sum_mset_sum_list)
qed

lemma headerPadding_mset: "mset es = mset es' \<Longrightarrow> headerPadding es = headerPadding es'"
  using stringTableSize_mset[of es es'] mset_eq_length[of es es']
  by (simp add: headerPadding_def)

lemma Build_builder:
  assumes "partEntries b \<noteq> []"
    and "generateHeader (b\<lparr>partEntries := sort_Slice (partEntries b)\<rparr>) = Some (h, b')"
  shows "fst (snd (Build sort_Slice b fs)) = b'"
  using assms by (simp add: Build_def Let_def split: sum.splits prod.splits option.splits)

lemma sorted_by_name_unique:
  assumes "mset xs = mset ys" "sorted (map name xs)" "sorted (map name ys)"
    "distinct (map name xs)"
  shows "xs = (ys :: partitionEntry list)"
proof -
  have m: "mset (map name xs) = mset (map name ys)" using assms(1) by simp
  then have dy: "distinct (map name ys)" using assms(4) by (metis mset_eq_imp_distinct_iff)
  have "set (map name xs) = set (map name ys)" using m by (metis set_mset_mset)
  then have e: "map name xs = map name ys"
    using assms(2-4) dy by (intro sorted_distinct_set_unique) simp_all
  have "set xs = set ys" using assms(1) by (metis set_mset_mset)
  moreover have "inj_on name (set xs)" using assms(4) by (simp add: distinct_map)
  ultimately have "inj_on name (set xs \<union> set ys)" by simp
  then show ?thesis using e by (simp add: inj_on_map_eq_map)
qed

lemma nameTable_assignOffsets: "nameTable (assignOffsets es so fo base) = nameTable es"
  by (induction es arbitrary: so fo) (simp_all add: nameTable_def)

text \<open>
  Claim C5, as amended. For a builder with at least one entry and a name table (with its
  padding) below \<open>2^32\<close> bytes, the header that \<open>Build\<close> generates after the sort declares
  an entry count equal to the number of registered entries; the entries that \<open>Build\<close>
  leaves in the builder are the registered ones in ascending order of name, and the name
  table of the header lists the names in that order. When the names are pairwise
  distinct the order is strictly ascending and neither it nor the header depends on the
  order of registration; two entries of the same name are neighbours in an order that
  \<open>sort.Slice\<close> does not fix.
\<close>

theorem Build_header_sorted:
  assumes "sorts_by_name sort_Slice"
    and "partEntries b \<noteq> []"
    and "stringTableSize (partEntries b) + headerPadding (partEntries b) < 2 ^ 32"
  shows "\<exists>h b'. generateHeader (b\<lparr>partEntries := sort_Slice (partEntries b)\<rparr>) = Some (h, b') \<and>
           fst (snd (Build sort_Slice b fs)) = b' \<and>
           le_nat (field 4 4 h) = length (partEntries b) \<and>
           mset (map name (partEntries b')) = mset (map name (partEntries b)) \<and>
           sorted (map name (partEntries b')) \<and>
           field (16 + 24 * length (partEntries b)) (stringTableSize (partEntries b)) h
             = nameTable (partEntries b') \<and>
           (distinct (map name (partEntries b)) \<longrightarrow>
              sorted_wrt (<) (map name (partEntries b')) \<and>
              (\<forall>es2. mset es2 = mset (partEntries b) \<longrightarrow>
                 generateHeader (b\<lparr>partEntries := sort_Slice es2\<rparr>) = Some (h, b')))"
proof -
  let ?es = "partEntries b"
  let ?ss = "sort_Slice ?es"
  let ?b1 = "b\<lparr>partEntries := ?ss\<rparr>"
  let ?h = "headerLayout ?ss"
  let ?es' = "assignOffsets ?ss 0 0 (of_nat (headerSize ?ss))"
  let ?b' = "?b1\<lparr>partEntries := ?es'\<rparr>"
  have ms: "mset ?ss = mset ?es" and so: "sorted (map name ?ss)"
    using assms(1) by (simp_all add: sorts_by_name_def)
  have len: "length ?ss = length ?es" using ms by (rule mset_eq_length)
  have sts: "stringTableSize ?ss = stringTableSize ?es" using ms by (rule stringTableSize_mset)
  have pad: "headerPadding ?ss = headerPadding ?es" using ms by (rule headerPadding_mset)
  have small: "stringTableSize ?ss < 2 ^ 32" using assms(3) sts by simp
  have g: "generateHeader ?b1 = Some (?h, ?b')"
    using generateHeader_closed[of ?b1] offsets_fit_bound[of ?ss 0] small by simp
  have bb: "fst (snd (Build sort_Slice b fs)) = ?b'"
    using Build_builder[of b sort_Slice ?h ?b' fs] assms(2) g by simp
  have n: "length ?es < 2 ^ 32"
    using assms(3) length_le_stringTableSize[of ?es] by simp
  have cnt: "le_nat (field 4 4 ?h) = length ?es"
    using n by (simp add: field_prologue field_count le_nat_le32 unat_of_nat32 len)
  have nm: "map name (partEntries ?b') = map name ?ss"
    by (simp add: map_name_assignOffsets)
  have m1: "mset (map name (partEntries ?b')) = mset (map name ?es)"
    unfolding nm using ms by (metis mset_map)
  have s1: "sorted (map name (partEntries ?b'))" unfolding nm by (rule so)
  have nt0: "nameTable ?es' = nameTable ?ss"
    by (rule nameTable_assignOffsets)
  have nt: "field (16 + 24 * length ?es) (stringTableSize ?es) ?h = nameTable (partEntries ?b')"
    using nt0 by (simp add: field_def headerLayout_split length_headerPrologue length_entryRecords
        len length_nameTable sts[symmetric])
  have ind: "sorted_wrt (<) (map name (partEntries ?b')) \<and>
       (\<forall>es2. mset es2 = mset ?es \<longrightarrow> generateHeader (b\<lparr>partEntries := sort_Slice es2\<rparr>) = Some (?h, ?b'))"
    if d: "distinct (map name ?es)"
  proof -
    have dm: "distinct (map name ?ss)"
      using d ms by (metis mset_eq_imp_distinct_iff mset_map)
    have st: "sorted_wrt (<) (map name (partEntries ?b'))"
      unfolding nm using so dm by (simp add: strict_sorted_iff)
    have "generateHeader (b\<lparr>partEntries := sort_Slice es2\<rparr>) = Some (?h, ?b')"
      if e2: "mset es2 = mset ?es" for es2
    proof -
      have "mset (sort_Slice es2) = mset ?ss" "sorted (map name (sort_Slice es2))"
        using assms(1) e2 ms by (simp_all add: sorts_by_name_def)
      then have "sort_Slice es2 = ?ss"
        using sorted_by_name_unique[of ?ss "sort_Slice es2"] so dm by simp
      then show ?thesis using g by simp
    qed
    with st show ?thesis by blast
  qed
  show ?thesis
    apply (rule exI[of _ ?h], rule exI[of _ ?b'])
    using g bb cnt m1 s1 nt ind by blast
qed

lemma registered_entries:
  "partEntries registered =
     [\<lparr>path = ''b.bin'', name = ''b.bin'', fsize = 3, dataOffset = 0, stringOffset = 0\<rparr>,
      \<lparr>path = ''a.bin'', name = ''a.bin'', fsize = 2, dataOffset = 0, stringOffset = 0\<rparr>]"
  by (simp add: registered_def AddFile_def os_Stat_def fileSystem2_def emptyBuilder_def
      MaxFileSize_def basename_def)

lemma sameNames_entries:
  "partEntries sameNames =
     [\<lparr>path = ''x/a.bin'', name = ''a.bin'', fsize = 1, dataOffset = 0, stringOffset = 0\<rparr>,
      \<lparr>path = ''y/a.bin'', name = ''a.bin'', fsize = 2, dataOffset = 0, stringOffset = 0\<rparr>]"
  by (simp add: sameNames_def AddFile_def os_Stat_def fileSystemDup_def emptyBuilder_def
      MaxFileSize_def basename_def)

lemma Build_names:
  assumes "partEntries b \<noteq> []"
  shows "(map name \<circ> partEntries \<circ> fst \<circ> snd) (Build sort_Slice b fs)
           = map name (sort_Slice (partEntries b))"
proof -
  let ?b1 = "b\<lparr>partEntries := sort_Slice (partEntries b)\<rparr>"
  from generateHeader_total[of ?b1] obtain h where
    g: "generateHeader ?b1 = Some (h, ?b1\<lparr>partEntries := assignOffsets (partEntries ?b1) 0 0
          (of_nat (headerSize (partEntries ?b1)))\<rparr>)"
    by blast
  from Build_builder[of b sort_Slice h _ fs, OF assms g] show ?thesis
    by (simp add: map_name_assignOffsets)
qed

text \<open>
  Claim C5 as stated fails for two files of the same base name: the names of the sorted
  entries are equal, not strictly ascending.
\<close>

theorem Build_header_sorted_counterexample:
  "sorts_by_name (sort_key name) \<and>
   (map name \<circ> partEntries \<circ> fst \<circ> snd) (Build (sort_key name) sameNames fileSystemDup)
     = [''a.bin'', ''a.bin''] \<and>
   \<not> sorted_wrt (<) [''a.bin'' :: string, ''a.bin'']"
proof -
  have "partEntries sameNames \<noteq> []" by (simp add: sameNames_entries)
  from Build_names[OF this, of "sort_key name" fileSystemDup]
  have "(map name \<circ> partEntries \<circ> fst \<circ> snd) (Build (sort_key name) sameNames fileSystemDup)
     = [''a.bin'', ''a.bin'']"
    by (simp add: sameNames_entries)
  then show ?thesis using sorts_by_name_sort_key by simp
qed

text \<open>The files \<open>b.bin\<close> and \<open>a.bin\<close>, registered in this order, come out as \<open>a.bin\<close>, \<open>b.bin\<close>.\<close>

theorem Build_header_sorted_witness:
  "sorts_by_name (sort_key name) \<and> partEntries registered \<noteq> [] \<and>
   stringTableSize (partEntries registered) + headerPadding (partEntries registered) < 2 ^ 32 \<and>
   distinct (map name (partEntries registered)) \<and>
   (map name \<circ> partEntries \<circ> fst \<circ> snd) (Build (sort_key name) registered fileSystem2)
     = [''a.bin'', ''b.bin''] \<and>
   sorted_wrt (<) [''a.bin'' :: string, ''b.bin'']"
proof -
  have ne: "partEntries registered \<noteq> []" by (simp add: registered_entries)
  have sm: "stringTableSize (partEntries registered) + headerPadding (partEntries registered) < 2 ^ 32"
    by (simp add: registered_entries stringTableSize_def headerPadding_def)
  have d: "distinct (map name (partEntries registered))" by (simp add: registered_entries)
  from Build_header_sorted[OF sorts_by_name_sort_key ne sm, of fileSystem2] obtain h b' where
    bb: "fst (snd (Build (sort_key name) registered fileSystem2)) = b'" and
    m: "mset (map name (partEntries b')) = mset (map name (partEntries registered))" and
    s: "sorted (map name (partEntries b'))" and
    st: "distinct (map name (partEntries registered)) \<longrightarrow> sorted_wrt (<) (map name (partEntries b'))"
    by blast
  have "map name (partEntries b') = sort (map name (partEntries b'))"
    using s by (simp add: sorted_sort_id)
  also have "\<dots> = sort (map name (partEntries registered))"
    using m by (metis sorted_list_of_multiset_mset)
  also have "\<dots> = [''a.bin'', ''b.bin'']" by (simp add: registered_entries)
  finally have n: "map name (partEntries b') = [''a.bin'', ''b.bin'']" .
  have "sorted_wrt (<) [''a.bin'' :: string, ''b.bin'']" using st d n by simp
  with n bb ne sm d sorts_by_name_sort_key show ?thesis by simp
qed

section \<open>Properties of the copy loop\<close>

declare copyLoop.simps [simp del]

lemma os_Write_append:
  assumes "fs p = Some oc" "length oc + length bs \<le> MaxFileSize"
  shows "os_Write fs p (length oc) bs = (length bs, None, fs(p \<mapsto> oc @ bs))"
  using assms by (cases "bs = []") (simp_all add: os_Write_def write_at_def)

lemma os_Write_too_long:
  assumes "fs p = Some oc" "\<not> length oc + length bs \<le> MaxFileSize"
  shows "\<exists>n fs'. os_Write fs p (length oc) bs = (n, Some EFBIG, fs')"
  using assms by (simp add: os_Write_def)

lemma split_len: "k \<le> a - r \<Longrightarrow> k + (a - (r + k)) = a - (r::nat)"
  by arith

lemma copyLoop_append:
  assumes "inPath \<noteq> outPath" "fs inPath = Some c" "fs outPath = Some oc" "0 < bufLen"
    and "length oc + (length c - rpos) \<le> MaxFileSize"
  shows "copyLoop fs inPath rpos outPath (length oc) bufLen bw ps =
           (None, fs(outPath \<mapsto> oc @ drop rpos c),
            bw + of_nat (length c - rpos), ps + of_nat (length c - rpos))"
  using assms
proof (induction "length c - rpos" arbitrary: fs rpos oc bw ps rule: less_induct)
  case less
  let ?chunk = "take bufLen (drop rpos c)"
  have rd: "os_Read fs inPath rpos bufLen = Inr ?chunk"
    using less.prems(2) by (simp add: os_Read_def)
  show ?case
  proof (cases "length c \<le> rpos")
    case True
    then have "?chunk = []" by simp
    moreover have "fs(outPath \<mapsto> oc) = fs" using less.prems(3) by (simp add: fun_upd_idem)
    ultimately show ?thesis using True rd
      by (subst copyLoop.simps) simp
  next
    case False
    then have ne: "length ?chunk \<noteq> 0" using less.prems(4) by simp
    have cl: "length ?chunk \<le> length c - rpos" by simp
    then have fit: "length oc + length ?chunk \<le> MaxFileSize" using less.prems(5) by simp
    let ?fs' = "fs(outPath \<mapsto> oc @ ?chunk)"
    have wr: "os_Write fs outPath (length oc) ?chunk = (length ?chunk, None, ?fs')"
      using os_Write_append[of fs outPath oc ?chunk] less.prems(3) fit by simp
    have d: "drop rpos c = ?chunk @ drop (rpos + length ?chunk) c"
      by (metis append_take_drop_id drop_drop add.commute length_take min.commute take_all_iff linorder_le_cases min_def)
    have ih: "copyLoop ?fs' inPath (rpos + length ?chunk) outPath (length (oc @ ?chunk)) bufLen
                (bw + of_nat (length ?chunk)) (ps + of_nat (length ?chunk))
              = (None, ?fs'(outPath \<mapsto> (oc @ ?chunk) @ drop (rpos + length ?chunk) c),
                 (bw + of_nat (length ?chunk)) + of_nat (length c - (rpos + length ?chunk)),
                 (ps + of_nat (length ?chunk)) + of_nat (length c - (rpos + length ?chunk)))"
    proof (rule less.hyps)
      show "length c - (rpos + length ?chunk) < length c - rpos" using ne False by simp
      show "inPath \<noteq> outPath" by (rule less.prems(1))
      show "?fs' inPath = Some c" using less.prems(1,2) by simp
      show "?fs' outPath = Some (oc @ ?chunk)" by simp
      show "0 < bufLen" by (rule less.prems(4))
      show "length (oc @ ?chunk) + (length c - (rpos + length ?chunk)) \<le> MaxFileSize"
        using less.prems(5) cl by simp
    qed
    have n: "of_nat (length ?chunk) + of_nat (length c - (rpos + length ?chunk)) = (of_nat (length c - rpos) :: uint64)"
      using split_len[OF cl] by (simp only: of_nat_add[symmetric])
    show ?thesis
      apply (subst copyLoop.simps)
      using rd ne wr ih d n
      by (simp add: add.assoc del: length_take)  
  qed
qed

lemma copyLoop_too_long:
  assumes "inPath \<noteq> outPath" "fs inPath = Some c" "fs outPath = Some oc" "0 < bufLen"
    and "length oc \<le> MaxFileSize" "\<not> length oc + (length c - rpos) \<le> MaxFileSize"
  shows "fst (copyLoop fs inPath rpos outPath (length oc) bufLen bw ps) \<noteq> None"
  using assms
proof (induction "length c - rpos" arbitrary: fs rpos oc bw ps rule: less_induct)
  case less
  let ?chunk = "take bufLen (drop rpos c)"
  have rd: "os_Read fs inPath rpos bufLen = Inr ?chunk"
    using less.prems(2) by (simp add: os_Read_def)
  have pos: "rpos < length c" using less.prems(5,6) by simp
  then have ne: "length ?chunk \<noteq> 0" using less.prems(4) by simp
  have cl: "length ?chunk \<le> length c - rpos" by simp
  show ?case
  proof (cases "length oc + length ?chunk \<le> MaxFileSize")
    case True
    let ?fs' = "fs(outPath \<mapsto> oc @ ?chunk)"
    have wr: "os_Write fs outPath (length oc) ?chunk = (length ?chunk, None, ?fs')"
      using os_Write_append[of fs outPath oc ?chunk] less.prems(3) True by simp
    have ih: "fst (copyLoop ?fs' inPath (rpos + length ?chunk) outPath (length (oc @ ?chunk)) bufLen
                (bw + of_nat (length ?chunk)) (ps + of_nat (length ?chunk))) \<noteq> None"
    proof (rule less.hyps)
      show "length c - (rpos + length ?chunk) < length c - rpos" using ne pos by simp
      show "inPath \<noteq> outPath" by (rule less.prems(1))
      show "?fs' inPath = Some c" using less.prems(1,2) by simp
      show "?fs' outPath = Some (oc @ ?chunk)" by simp
      show "0 < bufLen" by (rule less.prems(4))
      show "length (oc @ ?chunk) \<le> MaxFileSize" using True by simp
      show "\<not> length (oc @ ?chunk) + (length c - (rpos + length ?chunk)) \<le> MaxFileSize"
        using less.prems(6) split_len[OF cl] by (simp only: length_append)
    qed
    show ?thesis
      apply (subst copyLoop.simps)
      using rd ne wr ih by (simp del: length_take)
  next
    case False
    from os_Write_too_long[of fs outPath oc ?chunk] less.prems(3) False obtain n fs' where
      "os_Write fs outPath (length oc) ?chunk = (n, Some EFBIG, fs')" by blast
    then show ?thesis
      apply (subst copyLoop.simps)
      using rd ne by (simp del: length_take)
  qed
qed

lemma copyLoop_alias:
  assumes "fs p = Some oc" "rpos < length oc" "0 < bufLen" "length oc \<le> MaxFileSize"
  shows "fst (copyLoop fs p rpos p (length oc) bufLen bw ps) \<noteq> None"
  using assms
proof (induction "MaxFileSize - length oc" arbitrary: fs rpos oc bw ps rule: less_induct)
  case less
  let ?chunk = "take bufLen (drop rpos oc)"
  have rd: "os_Read fs p rpos bufLen = Inr ?chunk"
    using less.prems(1) by (simp add: os_Read_def)
  have ne: "length ?chunk \<noteq> 0" using less.prems(2,3) by simp
  show ?case
  proof (cases "length oc + length ?chunk \<le> MaxFileSize")
    case True
    let ?fs' = "fs(p \<mapsto> oc @ ?chunk)"
    have wr: "os_Write fs p (length oc) ?chunk = (length ?chunk, None, ?fs')"
      using os_Write_append[of fs p oc ?chunk] less.prems(1) True by simp
    have ih: "fst (copyLoop ?fs' p (rpos + length ?chunk) p (length (oc @ ?chunk)) bufLen
                (bw + of_nat (length ?chunk)) (ps + of_nat (length ?chunk))) \<noteq> None"
    proof (rule less.hyps)
      show "MaxFileSize - length (oc @ ?chunk) < MaxFileSize - length oc"
        using ne True by (simp only: length_append)
      show "?fs' p = Some (oc @ ?chunk)" by simp
      show "rpos + length ?chunk < length (oc @ ?chunk)" using less.prems(2) by (simp del: length_take)
      show "0 < bufLen" by (rule less.prems(3))
      show "length (oc @ ?chunk) \<le> MaxFileSize" using True by simp
    qed
    show ?thesis
      apply (subst copyLoop.simps)
      using rd ne wr ih by (simp del: length_take)
  next
    case False
    from os_Write_too_long[of fs p oc ?chunk] less.prems(1) False obtain n fs' where
      "os_Write fs p (length oc) ?chunk = (n, Some EFBIG, fs')" by blast
    then show ?thesis
      apply (subst copyLoop.simps)
      using rd ne by (simp del: length_take)
  qed
qed

lemma copyLoop_no_buffer:
  assumes "fs inPath = Some c"
  shows "copyLoop fs inPath rpos outPath wpos 0 bw ps = (None, fs, bw, ps)"
  using assms by (subst copyLoop.simps) (simp add: os_Read_def)

lemma os_Seek_of_nat:
  assumes "n \<le> MaxFileSize"
  shows "os_Seek (of_nat n) = Inr n"
proof -
  have lt: "n < 2 ^ 63" using assms by (simp add: MaxFileSize_def)
  then have u: "unat (of_nat n :: uint64) = n" by (simp add: unat_of_nat)
  have "int n < 2 ^ 63" using lt by (metis of_nat_less_iff of_nat_numeral of_nat_power)
  then have "sint (of_nat n :: uint64) = int n"
    by (simp add: signed_of_nat signed_take_bit_int_eq_self)
  then have "\<not> sint (of_nat n :: uint64) < 0" by simp
  then show ?thesis using u by (simp add: os_Seek_def)
qed

lemma of_nat_eq_0_small:
  assumes "(of_nat n :: uint64) = 0" "n \<le> MaxFileSize"
  shows "n = 0"
proof -
  have "n < 2 ^ 64" using assms(2) by (simp add: MaxFileSize_def)
  then have "unat (of_nat n :: uint64) = n" by (simp add: unat_of_nat)
  with assms(1) show ?thesis by simp
qed

text \<open>What one call of \<open>copyFileToNSP\<close> does to an output file that ends at the entry's offset.\<close>

lemma copyFileToNSP_forward:
  assumes src: "F (path e) = Some c"
    and na: "0 < bufLen \<longrightarrow> path e \<noteq> OutputPath b"
    and off: "dataOffset e = of_nat (length oc)"
    and fit: "length oc + length (streamed bufLen c) \<le> MaxFileSize"
  shows "copyFileToNSP b (F(OutputPath b \<mapsto> oc)) e bufLen ps tot =
           ((if of_nat (length (streamed bufLen c)) \<noteq> fsize e
             then Some (SizeMismatch (path e) (fsize e) (of_nat (length (streamed bufLen c))))
             else None),
            F(OutputPath b \<mapsto> oc @ streamed bufLen c),
            ps + of_nat (length (streamed bufLen c)))"
proof -
  let ?out = "OutputPath b"
  let ?fs = "F(?out \<mapsto> oc)"
  have oclen: "length oc \<le> MaxFileSize" using fit by simp
  have ex: "\<exists>x. ?fs (path e) = Some x" using src by simp
  then have op: "os_Open ?fs (path e) = Inr ()" by (auto simp: os_Open_def)
  have sk: "os_Seek (dataOffset e) = Inr (length oc)"
    unfolding off using oclen by (rule os_Seek_of_nat)
  show ?thesis
  proof (cases "bufLen = 0")
    case True
    from ex obtain x where "?fs (path e) = Some x" by blast
    then have "copyLoop ?fs (path e) 0 ?out (length oc) 0 0 ps = (None, ?fs, 0, ps)"
      by (rule copyLoop_no_buffer)
    then show ?thesis using True op sk
      by (simp add: copyFileToNSP_def streamed_def)
  next
    case False
    then have ne: "path e \<noteq> ?out" and pos: "0 < bufLen" using na by simp_all
    have c: "?fs (path e) = Some c" using src ne by simp
    have "copyLoop ?fs (path e) 0 ?out (length oc) bufLen 0 ps =
            (None, ?fs(?out \<mapsto> oc @ drop 0 c), 0 + of_nat (length c - 0), ps + of_nat (length c - 0))"
      using copyLoop_append[where inPath="path e" and outPath="?out" and fs="?fs" and c=c
          and oc=oc and bufLen=bufLen and rpos=0 and bw=0 and ps=ps] ne c pos fit False
      by (simp add: streamed_def)
    then show ?thesis using False op sk
      by (simp add: copyFileToNSP_def streamed_def)
  qed
qed

text \<open>A call of \<open>copyFileToNSP\<close> that returns no error has appended the entry's bytes.\<close>

lemma copyFileToNSP_success:
  assumes ok: "copyFileToNSP b (F(OutputPath b \<mapsto> oc)) e bufLen ps tot = (None, fs', ps')"
    and reg: "registeredIn F e"
    and off: "dataOffset e = of_nat (length oc)"
    and oc: "0 < length oc" "length oc \<le> MaxFileSize"
  shows "fs' = F(OutputPath b \<mapsto> oc @ sourceBytes F e) \<and>
         length oc + length (sourceBytes F e) \<le> MaxFileSize \<and>
         fsize e = of_nat (length (sourceBytes F e))"
proof -
  let ?out = "OutputPath b"
  let ?fs = "F(?out \<mapsto> oc)"
  from reg obtain c where src: "F (path e) = Some c" and cl: "length c \<le> MaxFileSize"
    and sz: "fsize e = of_nat (length c)"
    by (auto simp: registeredIn_def split: option.splits)
  have sb: "sourceBytes F e = c" using src by (simp add: sourceBytes_def)
  have ex: "\<exists>x. ?fs (path e) = Some x" using src by simp
  then have op: "os_Open ?fs (path e) = Inr ()" by (auto simp: os_Open_def)
  have sk: "os_Seek (dataOffset e) = Inr (length oc)"
    unfolding off using oc(2) by (rule os_Seek_of_nat)
  show ?thesis
  proof (cases "bufLen = 0")
    case True
    have fw: "copyFileToNSP b ?fs e bufLen ps tot =
           ((if of_nat (length (streamed bufLen c)) \<noteq> fsize e
             then Some (SizeMismatch (path e) (fsize e) (of_nat (length (streamed bufLen c))))
             else None),
            F(?out \<mapsto> oc @ streamed bufLen c), ps + of_nat (length (streamed bufLen c)))"
      using copyFileToNSP_forward[where F=F and e=e and c=c and bufLen=bufLen and b=b and oc=oc
          and ps=ps and tot=tot] src off True oc(2)
      by (simp add: streamed_def)
    from fw ok True have "fsize e = 0" "fs' = ?fs"
      by (auto simp: streamed_def split: if_splits)
    then have "c = []" using sz cl of_nat_eq_0_small[of "length c"] by simp
    then show ?thesis using \<open>fs' = ?fs\<close> sb sz oc(2) by simp
  next
    case False
    then have pos: "0 < bufLen" by simp
    show ?thesis
    proof (cases "path e = ?out")
      case True
      have "fst (copyLoop ?fs ?out 0 ?out (length oc) bufLen 0 ps) \<noteq> None"
        using copyLoop_alias[where fs="?fs" and p="?out" and oc=oc and rpos=0 and bufLen=bufLen
            and bw=0 and ps=ps] oc pos by simp
      then have "fst (copyFileToNSP b ?fs e bufLen ps tot) \<noteq> None"
        using op sk True
        by (auto simp: copyFileToNSP_def split: prod.splits option.splits)
      with ok show ?thesis by simp
    next
      case ne: False
      have c: "?fs (path e) = Some c" using src ne by simp
      show ?thesis
      proof (cases "length oc + length c \<le> MaxFileSize")
        case True
        have fw: "copyFileToNSP b ?fs e bufLen ps tot =
           ((if of_nat (length (streamed bufLen c)) \<noteq> fsize e
             then Some (SizeMismatch (path e) (fsize e) (of_nat (length (streamed bufLen c))))
             else None),
            F(?out \<mapsto> oc @ streamed bufLen c), ps + of_nat (length (streamed bufLen c)))"
          using copyFileToNSP_forward[where F=F and e=e and c=c and bufLen=bufLen and b=b
              and oc=oc and ps=ps and tot=tot] src off True ne False
          by (simp add: streamed_def)
        from fw ok False have "fs' = F(?out \<mapsto> oc @ c)"
          by (auto simp: streamed_def split: if_splits)
        then show ?thesis using sb sz True by simp
      next
        case False
        have "fst (copyLoop ?fs (path e) 0 ?out (length oc) bufLen 0 ps) \<noteq> None"
          using copyLoop_too_long[where inPath="path e" and outPath="?out" and fs="?fs" and c=c
              and oc=oc and bufLen=bufLen and rpos=0 and bw=0 and ps=ps] ne c False oc(2) pos
          by simp
        then have "fst (copyFileToNSP b ?fs e bufLen ps tot) \<noteq> None"
          using op sk
          by (auto simp: copyFileToNSP_def split: prod.splits option.splits)
        with ok show ?thesis by simp
      qed
    qed
  qed
qed

lemma copyEntries_append:
  "copyEntries b fs (xs @ ys) bufLen ps tot =
     (case copyEntries b fs xs bufLen ps tot of
        (Some err, fs', ps') \<Rightarrow> (Some err, fs', ps')
      | (None, fs', ps') \<Rightarrow> copyEntries b fs' ys bufLen ps' tot)"
  by (induction xs arbitrary: fs ps) (auto split: prod.splits option.splits)

lemma consecutive_append:
  "consecutive off (xs @ ys) =
     (consecutive off xs \<and> consecutive (off + sum_list (map fsize xs)) ys)"
  by (induction xs arbitrary: off) (auto simp: add.assoc)

lemma copyEntries_success:
  assumes "copyEntries b (F(OutputPath b \<mapsto> oc)) es bufLen ps tot = (None, fs', ps')"
    and "\<forall>e\<in>set es. registeredIn F e"
    and "consecutive (of_nat (length oc)) es"
    and "0 < length oc" "length oc \<le> MaxFileSize"
  shows "fs' = F(OutputPath b \<mapsto> oc @ concat (map (sourceBytes F) es)) \<and>
         length oc + length (concat (map (sourceBytes F) es)) \<le> MaxFileSize"
  using assms
proof (induction es arbitrary: oc ps)
  case Nil
  then show ?case by simp
next
  case (Cons e es)
  let ?fs = "F(OutputPath b \<mapsto> oc)"
  obtain r fs1 ps1 where c1: "copyFileToNSP b ?fs e bufLen ps tot = (r, fs1, ps1)"
    by (cases "copyFileToNSP b ?fs e bufLen ps tot") auto
  have st: "(case (r, fs1, ps1) of
               (Some err, fs', processed') \<Rightarrow> (Some err, fs', processed')
             | (None, fs', processed') \<Rightarrow> copyEntries b fs' es bufLen processed' tot)
            = (None, fs', ps')"
    using Cons.prems(1) unfolding copyEntries.simps c1 .
  have r: "r = None" using st by (cases r) simp_all
  have rest: "copyEntries b fs1 es bufLen ps1 tot = (None, fs', ps')"
    using st r by simp
  have off: "dataOffset e = of_nat (length oc)" using Cons.prems(3) by simp
  have reg: "registeredIn F e" using Cons.prems(2) by simp
  let ?c = "sourceBytes F e"
  from copyFileToNSP_success[OF c1[unfolded r] reg off Cons.prems(4,5)]
  have fs1: "fs1 = F(OutputPath b \<mapsto> oc @ ?c)" and fit: "length oc + length ?c \<le> MaxFileSize"
    and sz: "fsize e = of_nat (length ?c)" by simp_all
  have cons: "consecutive (of_nat (length (oc @ ?c))) es"
    using Cons.prems(3) sz by simp
  have a1: "copyEntries b (F(OutputPath b \<mapsto> oc @ ?c)) es bufLen ps1 tot = (None, fs', ps')"
    using rest unfolding fs1 .
  have a2: "\<forall>e\<in>set es. registeredIn F e" using Cons.prems(2) by simp
  have a4: "0 < length (oc @ ?c)" using Cons.prems(4) by simp
  have a5: "length (oc @ ?c) \<le> MaxFileSize" using fit by simp
  from Cons.IH[OF a1 a2 cons a4 a5] show ?case by (simp add: add.assoc)
qed

lemma copyEntries_forward:
  assumes "\<forall>e\<in>set es. matches F b bufLen e"
    and "consecutive (of_nat (length oc)) es"
    and "length oc + length (concat (map (streamed bufLen \<circ> sourceBytes F) es)) \<le> MaxFileSize"
  shows "\<exists>ps'. copyEntries b (F(OutputPath b \<mapsto> oc)) es bufLen ps tot =
           (None, F(OutputPath b \<mapsto> oc @ concat (map (streamed bufLen \<circ> sourceBytes F) es)), ps')"
  using assms
proof (induction es arbitrary: oc ps)
  case Nil
  then show ?case by simp
next
  case (Cons e es)
  let ?s = "streamed bufLen (sourceBytes F e)"
  from Cons.prems(1) obtain c where src: "F (path e) = Some c"
    and na: "0 < bufLen \<longrightarrow> path e \<noteq> OutputPath b" and sz: "fsize e = of_nat (length ?s)"
    by (auto simp: matches_def)
  have sb: "sourceBytes F e = c" using src by (simp add: sourceBytes_def)
  have off: "dataOffset e = of_nat (length oc)" using Cons.prems(2) by simp
  have fit: "length oc + length (streamed bufLen c) \<le> MaxFileSize"
    using Cons.prems(3) sb by simp
  have c1: "copyFileToNSP b (F(OutputPath b \<mapsto> oc)) e bufLen ps tot =
              (None, F(OutputPath b \<mapsto> oc @ ?s), ps + of_nat (length ?s))"
    using copyFileToNSP_forward[where F=F and e=e and c=c and bufLen=bufLen and b=b and oc=oc
        and ps=ps and tot=tot] src na off fit sz sb by simp
  have cons: "consecutive (of_nat (length (oc @ ?s))) es"
    using Cons.prems(2) sz by simp
  have ih: "\<exists>ps'. copyEntries b (F(OutputPath b \<mapsto> oc @ ?s)) es bufLen (ps + of_nat (length ?s)) tot =
           (None, F(OutputPath b \<mapsto> (oc @ ?s) @ concat (map (streamed bufLen \<circ> sourceBytes F) es)), ps')"
    using Cons.prems(1,3) cons by (intro Cons.IH) (simp_all add: add.assoc)
  have eq: "oc @ concat (map (streamed bufLen \<circ> sourceBytes F) (e # es))
              = (oc @ ?s) @ concat (map (streamed bufLen \<circ> sourceBytes F) es)"
    by simp
  show ?case unfolding copyEntries.simps c1 eq prod.case option.case by (rule ih)
qed

lemma copyEntries_mismatch:
  assumes pre: "\<forall>x\<in>set pre. matches F b bufLen x"
    and src: "F (path e) \<noteq> None" and na: "0 < bufLen \<longrightarrow> path e \<noteq> OutputPath b"
    and mm: "fsize e \<noteq> of_nat (length (streamed bufLen (sourceBytes F e)))"
    and cons: "consecutive (of_nat (length oc)) (pre @ e # rest)"
    and fit: "length oc + length (concat (map (streamed bufLen \<circ> sourceBytes F) (pre @ [e]))) \<le> MaxFileSize"
  shows "\<exists>ps'. copyEntries b (F(OutputPath b \<mapsto> oc)) (pre @ e # rest) bufLen ps tot =
           (Some (SizeMismatch (path e) (fsize e)
                    (of_nat (length (streamed bufLen (sourceBytes F e))))),
            F(OutputPath b \<mapsto> oc @ concat (map (streamed bufLen \<circ> sourceBytes F) (pre @ [e]))), ps')"
proof -
  let ?p = "concat (map (streamed bufLen \<circ> sourceBytes F) pre)"
  let ?s = "streamed bufLen (sourceBytes F e)"
  have c0: "consecutive (of_nat (length oc)) pre"
    and c1: "consecutive (of_nat (length oc) + sum_list (map fsize pre)) (e # rest)"
    using cons by (simp_all add: consecutive_append)
  have fp: "length oc + length ?p \<le> MaxFileSize" using fit by simp
  from copyEntries_forward[OF pre c0 fp, of ps tot] obtain ps1 where
    p: "copyEntries b (F(OutputPath b \<mapsto> oc)) pre bufLen ps tot = (None, F(OutputPath b \<mapsto> oc @ ?p), ps1)"
    by blast
  have sum: "sum_list (map fsize pre) = of_nat (length ?p)"
    using pre by (induction pre) (simp_all add: matches_def)
  have off: "dataOffset e = of_nat (length (oc @ ?p))" using c1 sum by simp
  from src obtain c where sc: "F (path e) = Some c" by blast
  have sb: "sourceBytes F e = c" using sc by (simp add: sourceBytes_def)
  have fe: "length (oc @ ?p) + length (streamed bufLen c) \<le> MaxFileSize"
    using fit sb by simp
  have cf: "copyFileToNSP b (F(OutputPath b \<mapsto> oc @ ?p)) e bufLen ps1 tot =
          (Some (SizeMismatch (path e) (fsize e) (of_nat (length ?s))),
           F(OutputPath b \<mapsto> (oc @ ?p) @ ?s), ps1 + of_nat (length ?s))"
    using copyFileToNSP_forward[where F=F and e=e and c=c and bufLen=bufLen and b=b
        and oc="oc @ ?p" and ps=ps1 and tot=tot] sc na off fe mm sb by auto
  have eq: "oc @ concat (map (streamed bufLen \<circ> sourceBytes F) (pre @ [e])) = (oc @ ?p) @ ?s"
    by simp
  show ?thesis unfolding copyEntries_append p copyEntries.simps cf eq prod.case option.case
    by blast
qed

end
